theory Spec2Isabelle
  imports Complex_Main "HOL-Library.Word" "HOL-Library.Sublist"
begin

section \<open>Go channels, as far as the two source files use them\<close>

text \<open>
  A channel is its buffer (oldest value first), its capacity and whether it has been
  closed. One goroutine is modelled, the one that runs the two source files.
\<close>

record 'a chan =
  buf :: "'a list"
  cap :: nat
  closed :: bool

text \<open>
  \<open>select { case v := <-ch: ... default: ... }\<close>: take the oldest buffered value; on an
  empty closed channel receive the zero value of the element type; otherwise take the
  \<open>default\<close> branch (\<open>None\<close>).
\<close>

definition tryrecv :: "'a \<Rightarrow> 'a chan \<Rightarrow> ('a \<times> 'a chan) option" where
  "tryrecv zero ch =
     (case buf ch of
        v # vs \<Rightarrow> Some (v, ch\<lparr>buf := vs\<rparr>)
      | [] \<Rightarrow> if closed ch then Some (zero, ch) else None)"

text \<open>
  A channel on which the modelled goroutine sends. The goroutines at its other end are not
  modelled; what the send needs to know of them is how many are waiting in a receive
  (\<open>receivers\<close>), and what it gives them is recorded (\<open>handed\<close>, oldest first).
\<close>

record 'a sendchan = "'a chan" +
  receivers :: nat
  handed :: "'a list"

text \<open>
  \<open>ch <- v\<close>, in the order of Go's runtime: a send on a closed channel panics; a
  waiting receiver gets the value directly; otherwise the value is queued behind what the
  buffer holds, when there is room; otherwise the goroutine is parked in the send until
  another goroutine receives.
\<close>

datatype 'a sending = Sent "'a sendchan" | Parked | SendOnClosed

definition send :: "'a \<Rightarrow> 'a sendchan \<Rightarrow> 'a sending" where
  "send v ch =
     (if closed ch then SendOnClosed
      else if 0 < receivers ch then
        Sent (ch\<lparr>receivers := receivers ch - 1, handed := handed ch @ [v]\<rparr>)
      else if length (buf ch) < cap ch then Sent (ch\<lparr>buf := buf ch @ [v]\<rparr>)
      else Parked)"

section \<open>glfw/error.go\<close>

type_synonym ErrorCode = int

definition notInitialized :: ErrorCode where "notInitialized = 0x00010001"
definition noCurrentContext :: ErrorCode where "noCurrentContext = 0x00010002"
definition invalidEnum :: ErrorCode where "invalidEnum = 0x00010003"
definition invalidValue :: ErrorCode where "invalidValue = 0x00010004"
definition outOfMemory :: ErrorCode where "outOfMemory = 0x00010005"
definition apiUnavailable :: ErrorCode where "apiUnavailable = 0x00010006"
definition versionUnavailable :: ErrorCode where "versionUnavailable = 0x00010007"
definition platformError :: ErrorCode where "platformError = 0x00010008"
definition formatUnavailable :: ErrorCode where "formatUnavailable = 0x00010009"
definition noWindowContext :: ErrorCode where "noWindowContext = 0x0001000A"
definition cursorUnavailable :: ErrorCode where "cursorUnavailable = 0x0001000B"
definition featureUnavailable :: ErrorCode where "featureUnavailable = 0x0001000C"
definition featureUnimplemented :: ErrorCode where "featureUnimplemented = 0x0001000D"
definition platformUnavailable :: ErrorCode where "platformUnavailable = 0x0001000E"

lemmas ErrorCode_defs =
  notInitialized_def noCurrentContext_def invalidEnum_def invalidValue_def outOfMemory_def
  apiUnavailable_def versionUnavailable_def platformError_def formatUnavailable_def
  noWindowContext_def cursorUnavailable_def featureUnavailable_def
  featureUnimplemented_def platformUnavailable_def

record Error =
  Code :: ErrorCode
  Desc :: string

text \<open>What the package writes: \<open>log.Println(err)\<close>, and lines on \<open>os.Stderr\<close>.\<close>

datatype printed = LogPrintln Error | Stderr string "Error option"

text \<open>
  The package state: \<open>lastError\<close>, a channel of \<open>*Error\<close> (\<open>None\<close> is the nil pointer)
  made with capacity 1, and what has been written so far.
\<close>

record glfw =
  lastError :: "Error option chan"
  written :: "printed list"

definition fetchError :: "glfw \<Rightarrow> Error option \<times> glfw" where
  "fetchError g =
     (case tryrecv None (lastError g) of
        Some (err, ch) \<Rightarrow> (err, g\<lparr>lastError := ch\<rparr>)
      | None \<Rightarrow> (None, g))"

text \<open>The \<open>for _, code := range codes\<close> loop of \<open>acceptError\<close>.\<close>

primrec accepted :: "ErrorCode list \<Rightarrow> ErrorCode \<Rightarrow> bool" where
  "accepted [] c = False"
| "accepted (code # codes) c = (if c = code then True else accepted codes c)"

text \<open>
  \<open>acceptError\<close> returns an \<open>error\<close> (\<open>Inr\<close>; \<open>None\<close> is nil) or panics with the error
  (\<open>Inl\<close>); the state after it is returned in both cases.
\<close>

definition acceptError :: "ErrorCode list \<Rightarrow> glfw \<Rightarrow> (Error + Error option) \<times> glfw" where
  "acceptError codes g =
     (case fetchError g of
        (None, g1) \<Rightarrow> (Inr None, g1)
      | (Some err, g1) \<Rightarrow>
          if accepted codes (Code err) then (Inr (Some err), g1)
          else if Code err = platformError then
            (Inr None, g1\<lparr>written := written g1 @ [LogPrintln err]\<rparr>)
          else if Code err \<in> {notInitialized, noCurrentContext, invalidEnum, invalidValue,
                               outOfMemory, noWindowContext} then
            (Inl err, g1)
          else
            (Inl err, g1\<lparr>written := written g1 @
               [Stderr ''go-gl/glfw: internal error: an invalid error was not accepted by the caller:'' (Some err),
                Stderr ''go-gl/glfw: Please report this in the Go package issue tracker.'' None]\<rparr>))"

definition flushErrors :: "glfw \<Rightarrow> glfw" where
  "flushErrors g =
     (case fetchError g of
        (None, g1) \<Rightarrow> g1
      | (Some err, g1) \<Rightarrow> g1\<lparr>written := written g1 @
          [Stderr ''go-gl/glfw: internal error: an uncaught error has occurred:'' (Some err),
           Stderr ''go-gl/glfw: Please report this in the Go package issue tracker.'' None]\<rparr>)"

definition panicError :: "glfw \<Rightarrow> (Error + unit) \<times> glfw" where
  "panicError g =
     (case acceptError [] g of
        (Inl err, g1) \<Rightarrow> (Inl err, g1)
      | (Inr None, g1) \<Rightarrow> (Inr (), g1)
      | (Inr (Some err), g1) \<Rightarrow> (Inl err, g1))"

section \<open>The window callbacks (package app)\<close>

subsection \<open>Data\<close>

text \<open>Go's \<open>int\<close> on a 64-bit platform: addition wraps, comparison is signed.\<close>

type_synonym goint = "64 word"

text \<open>\<open>key.Range\<close>: two offsets; \<open>Start\<close> may be larger than \<open>End\<close>.\<close>

record key_Range =
  Start :: goint
  End :: goint

text \<open>
  \<open>event.Event\<close>. \<open>key.SnippetEvent\<close> and \<open>key.SelectionEvent\<close> are conversions of a
  \<open>key.Range\<close>, \<open>key.EditEvent\<close> is a range and a text, \<open>mado.WakeupEvent\<close> carries
  nothing; the callbacks forward every other event without looking at it.
\<close>

datatype event =
    WakeupEvent
  | EditEvent key_Range string
  | SelectionEvent key_Range
  | SnippetEvent key_Range
  | OtherEvent nat

text \<open>
  \<open>mado.EditorState\<close>, as far as the callbacks read and write it: the range of the
  selection, the composing region and the range of the snippet.
\<close>

record Selection =
  Selection_Range :: key_Range

record Snippet =
  Snippet_Range :: key_Range

record EditorState =
  Selection :: Selection
  Compose :: key_Range
  Snippet :: Snippet

text \<open>
  \<open>unit.Dp\<close> is a \<open>float32\<close> in Go. The callbacks only copy it and write the literal 0,
  so the reals stand for it.
\<close>

type_synonym Dp = real

record Metric =
  PxPerDp :: real
  PxPerSp :: real

text \<open>
  Modelled from the spec: \<open>mado.Config\<close> is declared outside the two source files. It is
  the "configuration record seeded with the window's current decoration-enabled flag"; a
  title stands for the fields the callbacks never touch.
\<close>

record Config =
  Title :: string
  Decorated :: bool

text \<open>\<open>mado.Option\<close> is \<open>func(unit.Metric, *Config)\<close>: it updates the record it is handed.\<close>

type_synonym Option = "Metric \<Rightarrow> Config \<Rightarrow> Config"

type_synonym Action = nat

type_synonym Driver = nat

text \<open>A value of type \<open>func()\<close>: the method value \<open>d.Wakeup\<close>; the nil function is \<open>None\<close>.\<close>

datatype WakeupFunc = Wakeup Driver

type_synonym SemanticID = nat

datatype SemanticNode = SemanticNode (ID: SemanticID) (Children: "SemanticNode list")

record Semantic =
  Root :: SemanticID
  Ids :: "SemanticID \<rightharpoonup> SemanticNode"
  PrevTree :: "SemanticNode list"

record Decorations =
  Enabled :: bool
  Height :: Dp

text \<open>The fields of \<open>*Window\<close> that the callbacks use.\<close>

record Window =
  ImeState :: EditorState
  Decorations :: Decorations
  Metric :: Metric
  Semantic :: Semantic
  Options :: "Option list chan"
  Actions :: "Action chan"
  Destroy :: "unit chan"
  WakeupFuncs :: "WakeupFunc option sendchan"

text \<open>
  What \<open>Window.ProcessEvent\<close> does to the callbacks while it runs, in the order it does
  it: it writes to the window (\<open>Modify\<close>), it calls \<open>c.Event\<close> and goes on according to
  the boolean that call returns (\<open>Submit e onTrue onFalse\<close>), and it returns its
  \<open>handled\<close> result (\<open>Ret\<close>). It does not bind another driver while it runs: the
  driver changes between two top-level calls of \<open>Event\<close> only.
\<close>

datatype prog =
    Ret bool
  | Modify "Window \<Rightarrow> Window" prog
  | Submit event prog prog

text \<open>
  The methods of \<open>*Window\<close> and the package functions that the callbacks call and the
  source files do not hold. They are parameters of the model.
\<close>

record ops =
  ProcessEvent :: "Driver option \<Rightarrow> event \<Rightarrow> Window \<Rightarrow> prog"
  UpdateState :: "Driver option \<Rightarrow> Window \<Rightarrow> Window"
  Replace :: "key_Range \<Rightarrow> string \<Rightarrow> EditorState \<Rightarrow> EditorState"
  UpdateSemantics :: "Window \<Rightarrow> Window"
  CollectSemanticDiffs :: "Window \<Rightarrow> SemanticID list \<Rightarrow> SemanticNode \<Rightarrow> Window \<times> SemanticID list"
  DecoHeightOpt :: "Dp \<Rightarrow> Option"

datatype DriverCall = Configure "Option list" | Perform Action

text \<open>The struct \<open>callbacks\<close>. The pointer \<open>w\<close> is the window it points to.\<close>

record callbacks =
  w :: Window
  d :: "Driver option"
  busy :: bool
  waitEvents :: "event list"

text \<open>
  The calls that cross the boundary of the struct are recorded next to it, oldest first:
  the arguments of the calls of \<open>c.Event\<close> that passed the driver check (\<open>submitted\<close>),
  the events handed to \<open>Window.ProcessEvent\<close> (\<open>processed\<close>) and the calls made on the
  driver (\<open>driverCalls\<close>). So are the loops of \<open>Event\<close>: how many of them are running
  (\<open>active\<close>), and whether one of them was ever started while another was running
  (\<open>overlapped\<close>).
\<close>

record traced = callbacks +
  submitted :: "event list"
  processed :: "event list"
  driverCalls :: "DriverCall list"
  active :: nat
  overlapped :: bool

text \<open>
  How a call ends: it returns (\<open>Ok\<close>), it panics with a message in the state it had
  reached (\<open>Panic\<close>), or the fuel is used up in the state it had reached (\<open>OutOfFuel\<close>).
\<close>

datatype 'a result = Ok 'a | Panic string traced | OutOfFuel traced

subsection \<open>SetWindow, SetDriver\<close>

definition SetWindow :: "Window \<Rightarrow> traced \<Rightarrow> traced" where
  "SetWindow win c = c\<lparr>w := win\<rparr>"

text \<open>
  \<open>SetDriver\<close> stores the driver and then sends \<open>d.Wakeup\<close>, or the nil function when
  \<open>d\<close> is nil, on \<open>c.w.WakeupFuncs\<close>. It returns when the send is done (\<open>Bound\<close>);
  it stays in the send, the driver already stored, until the window receives
  (\<open>InSend\<close>, with the value it is sending); or the send panics (\<open>SendPanic\<close>).
\<close>

datatype binding =
    Bound traced
  | InSend traced "WakeupFunc option"
  | SendPanic string traced

definition SetDriver :: "Driver option \<Rightarrow> traced \<Rightarrow> binding" where
  "SetDriver drv c =
     (let c1 = c\<lparr>d := drv\<rparr>;
          wakeup = (case drv of None \<Rightarrow> None | Some x \<Rightarrow> Some (Wakeup x))
      in (case send wakeup (WakeupFuncs (w c1)) of
            Sent ch \<Rightarrow> Bound (c1\<lparr>w := (w c1)\<lparr>WakeupFuncs := ch\<rparr>\<rparr>)
          | Parked \<Rightarrow> InSend c1 wakeup
          | SendOnClosed \<Rightarrow> SendPanic ''send on closed channel'' c1))"

subsection \<open>Event\<close>

text \<open>
  Lines 62 to 75: the pending options, if there are any, are applied in order to a
  \<open>Config\<close> that starts from the window's \<open>Decorations.Enabled\<close>; the flag is written
  back, and the driver is configured with the options followed by the height option.
\<close>

definition configurePending :: "ops \<Rightarrow> traced \<Rightarrow> traced result" where
  "configurePending env c =
     (case tryrecv [] (Options (w c)) of
        None \<Rightarrow> Ok c
      | Some (opts, ch) \<Rightarrow>
          let w1 = (w c)\<lparr>Options := ch\<rparr>;
              cnf = fold (\<lambda>opt cnf. opt (Metric w1) cnf) opts
                      \<lparr>Title = [], Decorated = Enabled (Decorations w1)\<rparr>;
              w2 = w1\<lparr>Decorations := (Decorations w1)\<lparr>Enabled := Decorated cnf\<rparr>\<rparr>;
              decoHeight = (if \<not> Enabled (Decorations w2) then 0 else Height (Decorations w2));
              opts1 = opts @ [DecoHeightOpt env decoHeight]
          in (case d c of
                None \<Rightarrow> Panic ''invalid memory address or nil pointer dereference'' (c\<lparr>w := w2\<rparr>)
              | Some _ \<Rightarrow> Ok (c\<lparr>w := w2, driverCalls := driverCalls c @ [Configure opts1]\<rparr>)))"

text \<open>Lines 76 to 80.\<close>

definition performPending :: "traced \<Rightarrow> traced result" where
  "performPending c =
     (case tryrecv 0 (Actions (w c)) of
        None \<Rightarrow> Ok c
      | Some (acts, ch) \<Rightarrow>
          (case d c of
             None \<Rightarrow>
               Panic ''invalid memory address or nil pointer dereference''
                 (c\<lparr>w := (w c)\<lparr>Actions := ch\<rparr>\<rparr>)
           | Some _ \<Rightarrow>
               Ok (c\<lparr>w := (w c)\<lparr>Actions := ch\<rparr>, driverCalls := driverCalls c @ [Perform acts]\<rparr>)))"

text \<open>
  Lines 54 to 82, what \<open>Event e\<close> does once its loop has ended and \<open>busy\<close> is false
  again: nothing if the window is being destroyed, else \<open>UpdateState\<close> and, for a
  \<open>WakeupEvent\<close>, the pending options and the pending actions.
\<close>

definition afterDrain :: "ops \<Rightarrow> event \<Rightarrow> traced \<Rightarrow> traced result" where
  "afterDrain env e c =
     (case tryrecv () (Destroy (w c)) of
        Some (_, ch) \<Rightarrow> Ok (c\<lparr>w := (w c)\<lparr>Destroy := ch\<rparr>\<rparr>)
      | None \<Rightarrow>
          let c1 = c\<lparr>w := UpdateState env (d c) (w c)\<rparr>
          in if e = WakeupEvent then
               (case configurePending env c1 of
                  Ok c2 \<Rightarrow> performPending c2
                | Panic m x \<Rightarrow> Panic m x
                | OutOfFuel x \<Rightarrow> OutOfFuel x)
             else Ok c1)"

text \<open>
  Entering and leaving the loop of \<open>Event\<close>, in the record of the running loops.
\<close>

definition enterLoop :: "traced \<Rightarrow> traced" where
  "enterLoop c = c\<lparr>overlapped := (overlapped c \<or> 0 < active c), active := Suc (active c)\<rparr>"

definition leaveLoop :: "traced \<Rightarrow> traced" where
  "leaveLoop c = c\<lparr>active := active c - 1\<rparr>"

text \<open>
  \<open>Event\<close>; its loop from entry to exit (\<open>drain\<close>, with the initial \<open>handled\<close> as an
  argument); the turns of the loop (\<open>turns\<close>, with the last \<open>handled\<close>); and the
  execution of what \<open>ProcessEvent\<close> does (\<open>run\<close>). The loop goes on for as long as events
  are waiting, which may be forever: each turn of the loop uses one unit of fuel.
\<close>

fun Event :: "ops \<Rightarrow> nat \<Rightarrow> event \<Rightarrow> traced \<Rightarrow> (traced \<times> bool) result"
  and drain :: "ops \<Rightarrow> nat \<Rightarrow> traced \<Rightarrow> bool \<Rightarrow> (traced \<times> bool) result"
  and turns :: "ops \<Rightarrow> nat \<Rightarrow> traced \<Rightarrow> bool \<Rightarrow> (traced \<times> bool) result"
  and run :: "ops \<Rightarrow> nat \<Rightarrow> prog \<Rightarrow> traced \<Rightarrow> (traced \<times> bool) result"
where
  "Event env fuel e c =
     (if d c = None then Panic ''event while no driver active'' c
      else
        let c1 = c\<lparr>waitEvents := waitEvents c @ [e], submitted := submitted c @ [e]\<rparr>
        in if busy c1 then Ok (c1, True)
           else
             (case drain env fuel (c1\<lparr>busy := True\<rparr>) False of
                Ok (c2, handled) \<Rightarrow>
                  (case afterDrain env e (c2\<lparr>busy := False\<rparr>) of
                     Ok c3 \<Rightarrow> Ok (c3, handled)
                   | Panic m x \<Rightarrow> Panic m x
                   | OutOfFuel x \<Rightarrow> OutOfFuel x)
              | Panic m x \<Rightarrow> Panic m x
              | OutOfFuel x \<Rightarrow> OutOfFuel x))"
| "drain env fuel c handled =
     (case turns env fuel (enterLoop c) handled of
        Ok (c1, h) \<Rightarrow> Ok (leaveLoop c1, h)
      | Panic m x \<Rightarrow> Panic m x
      | OutOfFuel x \<Rightarrow> OutOfFuel x)"
| "turns env fuel c handled =
     (case waitEvents c of
        [] \<Rightarrow> Ok (c, handled)
      | e # rest \<Rightarrow>
          (case fuel of
             0 \<Rightarrow> OutOfFuel c
           | Suc n \<Rightarrow>
               (case run env n (ProcessEvent env (d c) e (w c))
                       (c\<lparr>waitEvents := rest, processed := processed c @ [e]\<rparr>) of
                  Ok (c1, h) \<Rightarrow> turns env n c1 h
                | Panic m x \<Rightarrow> Panic m x
                | OutOfFuel x \<Rightarrow> OutOfFuel x)))"
| "run env fuel (Ret h) c = Ok (c, h)"
| "run env fuel (Modify f k) c = run env fuel k (c\<lparr>w := f (w c)\<rparr>)"
| "run env fuel (Submit e onTrue onFalse) c =
     (case Event env fuel e c of
        Ok (c1, b) \<Rightarrow> run env fuel (if b then onTrue else onFalse) c1
      | Panic m x \<Rightarrow> Panic m x
      | OutOfFuel x \<Rightarrow> OutOfFuel x)"

declare Event.simps [simp del] drain.simps [simp del] turns.simps [simp del]

subsection \<open>The semantic tree\<close>

definition SemanticRoot :: "ops \<Rightarrow> traced \<Rightarrow> SemanticID \<times> traced" where
  "SemanticRoot env c =
     (let c1 = c\<lparr>w := UpdateSemantics env (w c)\<rparr> in (Root (Semantic (w c1)), c1))"

definition LookupSemantic :: "ops \<Rightarrow> SemanticID \<Rightarrow> traced \<Rightarrow> (SemanticNode option) \<times> traced" where
  "LookupSemantic env semID c =
     (let c1 = c\<lparr>w := UpdateSemantics env (w c)\<rparr> in (Ids (Semantic (w c1)) semID, c1))"

text \<open>
  \<open>AppendSemanticDiffs\<close> returns the slice \<open>diffs\<close> (here \<open>ds\<close>); \<open>CollectSemanticDiffs\<close> gets a
  pointer to it and the first node of \<open>PrevTree\<close>, when there is one.
\<close>

definition AppendSemanticDiffs :: "ops \<Rightarrow> SemanticID list \<Rightarrow> traced \<Rightarrow> SemanticID list \<times> traced" where
  "AppendSemanticDiffs env ds c =
     (let c1 = c\<lparr>w := UpdateSemantics env (w c)\<rparr>
      in case PrevTree (Semantic (w c1)) of
           [] \<Rightarrow> (ds, c1)
         | n # _ \<Rightarrow>
             (case CollectSemanticDiffs env (w c1) ds n of
                (w2, ds2) \<Rightarrow> (ds2, c1\<lparr>w := w2\<rparr>)))"

subsection \<open>The editor\<close>

text \<open>
  \<open>utf8.RuneCountInString\<close> of Go's standard library. A Go string is a sequence of
  bytes, here a \<open>string\<close>. \<open>leading b\<close> is the table \<open>first\<close> joined with
  \<open>acceptRanges\<close>: for a byte that can start an encoding of more than one byte, the size
  of the encoding and the bounds of its second byte.
\<close>

definition leading :: "nat \<Rightarrow> (nat \<times> nat \<times> nat) option" where
  "leading b =
     (if b < 0xC2 then None
      else if b \<le> 0xDF then Some (2, 0x80, 0xBF)
      else if b = 0xE0 then Some (3, 0xA0, 0xBF)
      else if b \<le> 0xEC then Some (3, 0x80, 0xBF)
      else if b = 0xED then Some (3, 0x80, 0x9F)
      else if b \<le> 0xEF then Some (3, 0x80, 0xBF)
      else if b = 0xF0 then Some (4, 0x90, 0xBF)
      else if b \<le> 0xF3 then Some (4, 0x80, 0xBF)
      else if b = 0xF4 then Some (4, 0x80, 0x8F)
      else None)"

definition continuation :: "nat \<Rightarrow> bool" where
  "continuation b = (0x80 \<le> b \<and> b \<le> 0xBF)"

text \<open>How many bytes the rune at the head of a non-empty byte sequence takes.\<close>

definition runeSize :: "nat list \<Rightarrow> nat" where
  "runeSize s =
     (let c = hd s in
      if c < 0x80 then 1
      else case leading c of
        None \<Rightarrow> 1
      | Some (sz, lo, hi) \<Rightarrow>
          if length s < sz then 1
          else if s ! 1 < lo \<or> hi < s ! 1 then 1
          else if sz = 2 then 2
          else if \<not> continuation (s ! 2) then 1
          else if sz = 3 then 3
          else if \<not> continuation (s ! 3) then 1
          else 4)"

function runeCount :: "nat list \<Rightarrow> nat" where
  "runeCount [] = 0"
| "runeCount (c # cs) = Suc (runeCount (drop (runeSize (c # cs)) (c # cs)))"
  by pat_completeness auto
termination
proof (relation "measure length")
  fix c :: nat and cs :: "nat list"
  have "0 < runeSize (c # cs)"
    by (auto simp: runeSize_def Let_def split: option.splits)
  then show "(drop (runeSize (c # cs)) (c # cs), c # cs) \<in> measure length"
    by simp
qed simp

definition RuneCountInString :: "string \<Rightarrow> nat" where
  "RuneCountInString text = runeCount (map of_char text)"

definition EditorState :: "traced \<Rightarrow> EditorState" where
  "EditorState c = ImeState (w c)"

definition SetComposingRegion :: "key_Range \<Rightarrow> traced \<Rightarrow> traced" where
  "SetComposingRegion r c = c\<lparr>w := (w c)\<lparr>ImeState := (ImeState (w c))\<lparr>Compose := r\<rparr>\<rparr>\<rparr>"

text \<open>The callers below drop the boolean that \<open>Event\<close> returns.\<close>

definition discard :: "(traced \<times> bool) result \<Rightarrow> traced result" where
  "discard r =
     (case r of Ok (c, _) \<Rightarrow> Ok c | Panic m x \<Rightarrow> Panic m x | OutOfFuel x \<Rightarrow> OutOfFuel x)"

definition EditorReplace :: "ops \<Rightarrow> nat \<Rightarrow> key_Range \<Rightarrow> string \<Rightarrow> traced \<Rightarrow> traced result" where
  "EditorReplace env fuel r text c =
     (let c1 = c\<lparr>w := (w c)\<lparr>ImeState := Replace env r text (ImeState (w c))\<rparr>\<rparr>
      in case Event env fuel (EditEvent r text) c1 of
           Ok (c2, _) \<Rightarrow>
             discard (Event env fuel (SnippetEvent (Snippet_Range (Snippet (ImeState (w c2))))) c2)
         | Panic m x \<Rightarrow> Panic m x
         | OutOfFuel x \<Rightarrow> OutOfFuel x)"

definition SetEditorSelection :: "ops \<Rightarrow> nat \<Rightarrow> key_Range \<Rightarrow> traced \<Rightarrow> traced result" where
  "SetEditorSelection env fuel r c =
     discard (Event env fuel (SelectionEvent r)
       (c\<lparr>w := (w c)\<lparr>ImeState :=
          (ImeState (w c))\<lparr>Selection := (Selection (ImeState (w c)))\<lparr>Selection_Range := r\<rparr>\<rparr>\<rparr>\<rparr>))"

definition EditorInsert :: "ops \<Rightarrow> nat \<Rightarrow> string \<Rightarrow> traced \<Rightarrow> traced result" where
  "EditorInsert env fuel text c =
     (let sel = Selection_Range (Selection (ImeState (w c)))
      in case EditorReplace env fuel sel text c of
           Ok c1 \<Rightarrow>
             (let start = (if End sel <s Start sel then End sel else Start sel);
                  sel1 = sel\<lparr>Start := start + of_nat (RuneCountInString text)\<rparr>;
                  sel2 = sel1\<lparr>End := Start sel1\<rparr>
              in SetEditorSelection env fuel sel2 c1)
         | Panic m x \<Rightarrow> Panic m x
         | OutOfFuel x \<Rightarrow> OutOfFuel x)"

definition SetEditorSnippet :: "ops \<Rightarrow> nat \<Rightarrow> key_Range \<Rightarrow> traced \<Rightarrow> traced result" where
  "SetEditorSnippet env fuel r c =
     (if Snippet_Range (Snippet (EditorState c)) = r then Ok c
      else discard (Event env fuel (SnippetEvent r) c))"

subsection \<open>Notions used by the statements below\<close>

text \<open>
  \<open>keepsIme p\<close>: no write of \<open>p\<close> to the window changes \<open>ImeState\<close>. \<open>imeStable env\<close>:
  this holds of everything \<open>ProcessEvent\<close> does, and \<open>UpdateState\<close> leaves \<open>ImeState\<close> as
  it is. \<open>fifo c\<close>: the events submitted so far are the events processed so far followed
  by the events that wait.
\<close>

primrec keepsIme :: "prog \<Rightarrow> bool" where
  "keepsIme (Ret h) = True"
| "keepsIme (Modify f k) = ((\<forall>x. ImeState (f x) = ImeState x) \<and> keepsIme k)"
| "keepsIme (Submit e p q) = (keepsIme p \<and> keepsIme q)"

definition imeStable :: "ops \<Rightarrow> bool" where
  "imeStable env =
     ((\<forall>drv e x. keepsIme (ProcessEvent env drv e x))
      \<and> (\<forall>drv x. ImeState (UpdateState env drv x) = ImeState x))"

definition fifo :: "traced \<Rightarrow> bool" where
  "fifo c = (submitted c = processed c @ waitEvents c)"

text \<open>
  \<open>sameLoop env c c'\<close>: what holds between two states \<open>c\<close> and \<open>c'\<close> of one loop, the
  second one later: \<open>busy\<close> is still set, the driver and the record of the running loops
  are the same, no call was made on the driver, events were only added to the submitted
  ones, \<open>fifo\<close> is kept, and so is the editor state when the collaborators do not write
  to it.
\<close>

definition sameLoop :: "ops \<Rightarrow> traced \<Rightarrow> traced \<Rightarrow> bool" where
  "sameLoop env c c' =
     (busy c' \<and> d c' = d c \<and> active c' = active c \<and> overlapped c' = overlapped c
      \<and> driverCalls c' = driverCalls c
      \<and> (\<exists>xs. submitted c' = submitted c @ xs)
      \<and> (fifo c \<longrightarrow> fifo c')
      \<and> (imeStable env \<longrightarrow> ImeState (w c') = ImeState (w c)))"

text \<open>
  \<open>silent p\<close>: \<open>p\<close> never calls \<open>Event\<close>. \<open>silentEnv env\<close>: \<open>ProcessEvent\<close> never
  submits an event of its own.
\<close>

primrec silent :: "prog \<Rightarrow> bool" where
  "silent (Ret h) = True"
| "silent (Modify f k) = silent k"
| "silent (Submit e p q) = False"

definition silentEnv :: "ops \<Rightarrow> bool" where
  "silentEnv env = (\<forall>drv e x. silent (ProcessEvent env drv e x))"

text \<open>
  The offset the spec gives for the caret after an insertion,
  \<open>min(selection.start, selection.end) + runeCount(text)\<close>, with the minimum of the two
  offsets as signed numbers and the sum in Go's \<open>int\<close>.
\<close>

definition caretAfter :: "key_Range \<Rightarrow> string \<Rightarrow> goint" where
  "caretAfter sel text =
     word_of_int (min (sint (Start sel)) (sint (End sel))) + of_nat (RuneCountInString text)"

text \<open>
  Unicode and UTF-8, as the standards define them and independently of the code: a scalar
  value is a code point that is not a surrogate; \<open>utf8 u\<close> is the encoding of \<open>u\<close> in
  one to four bytes; \<open>encode us\<close> is the Go string that holds the scalar values \<open>us\<close>.
\<close>

definition scalar :: "nat \<Rightarrow> bool" where
  "scalar u = (u < 0xD800 \<or> (0xE000 \<le> u \<and> u < 0x110000))"

definition utf8 :: "nat \<Rightarrow> nat list" where
  "utf8 u =
     (if u < 0x80 then [u]
      else if u < 0x800 then [0xC0 + u div 64, 0x80 + u mod 64]
      else if u < 0x10000 then [0xE0 + u div 4096, 0x80 + (u div 64) mod 64, 0x80 + u mod 64]
      else [0xF0 + u div 262144, 0x80 + (u div 4096) mod 64, 0x80 + (u div 64) mod 64,
            0x80 + u mod 64])"

definition encode :: "nat list \<Rightarrow> string" where
  "encode us = map char_of (concat (map utf8 us))"

text \<open>The same offset for a text of \<open>n\<close> scalar values.\<close>

definition caretAt :: "key_Range \<Rightarrow> nat \<Rightarrow> goint" where
  "caretAt sel n = word_of_int (min (sint (Start sel)) (sint (End sel))) + of_nat n"

subsection \<open>Concrete windows and collaborators\<close>

definition emptyChan :: "nat \<Rightarrow> 'a chan" where
  "emptyChan n = \<lparr>buf = [], cap = n, closed = False\<rparr>"

definition keyRange :: "goint \<Rightarrow> goint \<Rightarrow> key_Range" where
  "keyRange s e = \<lparr>Start = s, End = e\<rparr>"

definition freshWindow :: Window where
  "freshWindow =
     \<lparr>ImeState = \<lparr>Selection = \<lparr>Selection_Range = keyRange 0 0\<rparr>, Compose = keyRange 0 0,
                   Snippet = \<lparr>Snippet_Range = keyRange 0 0\<rparr>\<rparr>,
      Decorations = \<lparr>Enabled = True, Height = 24\<rparr>,
      Metric = \<lparr>PxPerDp = 1, PxPerSp = 1\<rparr>,
      Semantic = \<lparr>Root = 0, Ids = Map.empty, PrevTree = []\<rparr>,
      Options = emptyChan 1, Actions = emptyChan 1, Destroy = emptyChan 0,
      WakeupFuncs = \<lparr>buf = [], cap = 0, closed = False, receivers = 1, handed = []\<rparr>\<rparr>"

text \<open>A window with a driver bound, nothing waiting and nothing recorded.\<close>

definition fresh :: traced where
  "fresh = \<lparr>w = freshWindow, d = Some 1, busy = False, waitEvents = [],
            submitted = [], processed = [], driverCalls = [], active = 0,
            overlapped = False\<rparr>"

text \<open>Collaborators that handle every event and touch nothing.\<close>

definition quiet :: ops where
  "quiet =
     \<lparr>ProcessEvent = (\<lambda>drv e x. Ret True),
      UpdateState = (\<lambda>drv x. x),
      Replace = (\<lambda>r t s. s),
      UpdateSemantics = (\<lambda>x. x),
      CollectSemanticDiffs = (\<lambda>x ds n. (x, ds @ [ID n])),
      DecoHeightOpt = (\<lambda>h m cnf. cnf)\<rparr>"

text \<open>
  The same, except that processing \<open>OtherEvent 0\<close> submits \<open>OtherEvent 1\<close> and then
  \<open>OtherEvent 2\<close> from inside \<open>ProcessEvent\<close>.
\<close>

definition chatty :: ops where
  "chatty = quiet\<lparr>ProcessEvent := (\<lambda>drv e x.
     if e = OtherEvent 0
     then Submit (OtherEvent 1) (Submit (OtherEvent 2) (Ret True) (Ret False)) (Ret False)
     else Ret True)\<rparr>"

text \<open>Two options, and a window on which they wait to be applied.\<close>

definition undecorate :: Option where
  "undecorate m cnf = cnf\<lparr>Decorated := False\<rparr>"

definition retitle :: Option where
  "retitle m cnf = cnf\<lparr>Title := ''mado''\<rparr>"

definition pendingOptions :: traced where
  "pendingOptions = fresh\<lparr>w := freshWindow\<lparr>Options := \<lparr>buf = [[undecorate, retitle]], cap = 1, closed = False\<rparr>\<rparr>\<rparr>"

section \<open>Properties of glfw/error.go\<close>

lemma accepted_iff: "accepted codes c \<longleftrightarrow> c \<in> set codes"
  by (induction codes) auto

lemma fetchError_empty:
  "buf (lastError g) = [] \<Longrightarrow> \<not> closed (lastError g) \<Longrightarrow> fetchError g = (None, g)"
  by (simp add: fetchError_def tryrecv_def)

text \<open>
  Claim C10. \<open>acceptError\<close> is a total function of the accepted codes and the package
  state, and it sorts the fetched error by its code: nil when nothing is pending; the error
  itself when its code is one of the accepted codes; a log line and nil for an unaccepted
  \<open>platformError\<close>; a panic carrying the error for an unaccepted \<open>notInitialized\<close>,
  \<open>noCurrentContext\<close>, \<open>invalidEnum\<close>, \<open>invalidValue\<close>, \<open>outOfMemory\<close> or
  \<open>noWindowContext\<close>, and for every other unaccepted code. \<open>fetchError\<close> takes the
  \<open>default\<close> branch instead of waiting: on an empty, open \<open>lastError\<close> it returns nil
  and leaves the state as it is.
\<close>

theorem acceptError_classifies:
  "(fst (fetchError g) = None \<longrightarrow> acceptError codes g = (Inr None, snd (fetchError g)))
   \<and> (\<forall>err. fst (fetchError g) = Some err \<longrightarrow>
         (Code err \<in> set codes \<longrightarrow>
            acceptError codes g = (Inr (Some err), snd (fetchError g)))
       \<and> (Code err \<notin> set codes \<and> Code err = platformError \<longrightarrow>
            acceptError codes g =
              (Inr None, (snd (fetchError g))\<lparr>written := written (snd (fetchError g)) @ [LogPrintln err]\<rparr>))
       \<and> (Code err \<notin> set codes \<and>
          Code err \<in> {notInitialized, noCurrentContext, invalidEnum, invalidValue,
                      outOfMemory, noWindowContext} \<longrightarrow>
            acceptError codes g = (Inl err, snd (fetchError g)))
       \<and> (Code err \<notin> set codes \<and> Code err \<noteq> platformError \<longrightarrow>
            fst (acceptError codes g) = Inl err))
   \<and> (buf (lastError g) = [] \<and> \<not> closed (lastError g) \<longrightarrow> fetchError g = (None, g))"
proof (intro conjI allI impI)
  assume "fst (fetchError g) = None"
  then show "acceptError codes g = (Inr None, snd (fetchError g))"
    by (cases "fetchError g") (simp add: acceptError_def)
next
  fix err assume "fst (fetchError g) = Some err" and "Code err \<in> set codes"
  then show "acceptError codes g = (Inr (Some err), snd (fetchError g))"
    by (cases "fetchError g") (simp add: acceptError_def accepted_iff)
next
  fix err assume "fst (fetchError g) = Some err"
    and "Code err \<notin> set codes \<and> Code err = platformError"
  then show "acceptError codes g =
      (Inr None, (snd (fetchError g))\<lparr>written := written (snd (fetchError g)) @ [LogPrintln err]\<rparr>)"
    by (cases "fetchError g") (auto simp: acceptError_def accepted_iff)
next
  fix err assume "fst (fetchError g) = Some err"
    and "Code err \<notin> set codes \<and>
         Code err \<in> {notInitialized, noCurrentContext, invalidEnum, invalidValue,
                     outOfMemory, noWindowContext}"
  then show "acceptError codes g = (Inl err, snd (fetchError g))"
    by (cases "fetchError g") (auto simp: acceptError_def accepted_iff ErrorCode_defs)
next
  fix err assume "fst (fetchError g) = Some err"
    and "Code err \<notin> set codes \<and> Code err \<noteq> platformError"
  then show "fst (acceptError codes g) = Inl err"
    by (cases "fetchError g") (simp add: acceptError_def accepted_iff)
next
  assume "buf (lastError g) = [] \<and> \<not> closed (lastError g)"
  then show "fetchError g = (None, g)"
    by (simp add: fetchError_empty)
qed

theorem acceptError_classifies_witness:
  "acceptError [formatUnavailable]
     \<lparr>lastError = \<lparr>buf = [], cap = 1, closed = False\<rparr>, written = []\<rparr>
     = (Inr None, \<lparr>lastError = \<lparr>buf = [], cap = 1, closed = False\<rparr>, written = []\<rparr>)
   \<and> acceptError [formatUnavailable]
     \<lparr>lastError = \<lparr>buf = [Some \<lparr>Code = formatUnavailable, Desc = ''no format''\<rparr>], cap = 1, closed = False\<rparr>,
      written = []\<rparr>
     = (Inr (Some \<lparr>Code = formatUnavailable, Desc = ''no format''\<rparr>),
        \<lparr>lastError = \<lparr>buf = [], cap = 1, closed = False\<rparr>, written = []\<rparr>)
   \<and> acceptError [formatUnavailable]
     \<lparr>lastError = \<lparr>buf = [Some \<lparr>Code = platformError, Desc = ''x11''\<rparr>], cap = 1, closed = False\<rparr>,
      written = []\<rparr>
     = (Inr None,
        \<lparr>lastError = \<lparr>buf = [], cap = 1, closed = False\<rparr>,
         written = [LogPrintln \<lparr>Code = platformError, Desc = ''x11''\<rparr>]\<rparr>)
   \<and> acceptError [formatUnavailable]
     \<lparr>lastError = \<lparr>buf = [Some \<lparr>Code = invalidEnum, Desc = ''enum''\<rparr>], cap = 1, closed = False\<rparr>,
      written = []\<rparr>
     = (Inl \<lparr>Code = invalidEnum, Desc = ''enum''\<rparr>,
        \<lparr>lastError = \<lparr>buf = [], cap = 1, closed = False\<rparr>, written = []\<rparr>)
   \<and> fst (acceptError [formatUnavailable]
     \<lparr>lastError = \<lparr>buf = [Some \<lparr>Code = 7, Desc = ''?''\<rparr>], cap = 1, closed = False\<rparr>,
      written = []\<rparr>)
     = Inl \<lparr>Code = 7, Desc = ''?''\<rparr>"
  using
    acceptError_classifies [of "\<lparr>lastError = \<lparr>buf = [], cap = 1, closed = False\<rparr>, written = []\<rparr>"
      "[formatUnavailable]"]
    acceptError_classifies [of "\<lparr>lastError = \<lparr>buf = [Some \<lparr>Code = formatUnavailable, Desc = ''no format''\<rparr>], cap = 1, closed = False\<rparr>, written = []\<rparr>"
      "[formatUnavailable]"]
    acceptError_classifies [of "\<lparr>lastError = \<lparr>buf = [Some \<lparr>Code = platformError, Desc = ''x11''\<rparr>], cap = 1, closed = False\<rparr>, written = []\<rparr>"
      "[formatUnavailable]"]
    acceptError_classifies [of "\<lparr>lastError = \<lparr>buf = [Some \<lparr>Code = invalidEnum, Desc = ''enum''\<rparr>], cap = 1, closed = False\<rparr>, written = []\<rparr>"
      "[formatUnavailable]"]
    acceptError_classifies [of "\<lparr>lastError = \<lparr>buf = [Some \<lparr>Code = 7, Desc = ''?''\<rparr>], cap = 1, closed = False\<rparr>, written = []\<rparr>"
      "[formatUnavailable]"]
  by (simp add: fetchError_def tryrecv_def ErrorCode_defs)

section \<open>Properties of the window callbacks\<close>

subsection \<open>The loop and the calls made from inside it\<close>

lemma afterDrain_frame:
  "afterDrain env e c = Ok c' \<Longrightarrow>
     d c' = d c \<and> busy c' = busy c \<and> waitEvents c' = waitEvents c
     \<and> submitted c' = submitted c \<and> processed c' = processed c
     \<and> active c' = active c \<and> overlapped c' = overlapped c"
  by (auto simp: afterDrain_def configurePending_def performPending_def Let_def
      split: option.splits result.splits if_splits prod.splits)

lemma afterDrain_ime:
  "afterDrain env e c = Ok c' \<Longrightarrow> imeStable env \<Longrightarrow> ImeState (w c') = ImeState (w c)"
  by (auto simp: afterDrain_def configurePending_def performPending_def Let_def imeStable_def
      split: option.splits result.splits if_splits prod.splits)

lemma afterDrain_Ok: "d c \<noteq> None \<Longrightarrow> \<exists>c'. afterDrain env e c = Ok c'"
  by (auto simp: afterDrain_def configurePending_def performPending_def Let_def
      split: option.splits prod.splits)

lemma Event_busy:
  "d c \<noteq> None \<Longrightarrow> busy c \<Longrightarrow>
   Event env fuel e c = Ok (c\<lparr>waitEvents := waitEvents c @ [e], submitted := submitted c @ [e]\<rparr>, True)"
  by (simp add: Event.simps Let_def)

lemma run_busy:
  "d c \<noteq> None \<Longrightarrow> busy c \<Longrightarrow>
   \<exists>c' h xs. run env fuel p c = Ok (c', h) \<and> busy c' \<and> d c' = d c \<and> processed c' = processed c
      \<and> driverCalls c' = driverCalls c \<and> active c' = active c \<and> overlapped c' = overlapped c
      \<and> waitEvents c' = waitEvents c @ xs \<and> submitted c' = submitted c @ xs
      \<and> (keepsIme p \<longrightarrow> ImeState (w c') = ImeState (w c))"
proof (induction p arbitrary: c)
  case (Ret h)
  then show ?case by simp
next
  case (Modify f k)
  from Modify.IH[of "c\<lparr>w := f (w c)\<rparr>"] Modify.prems show ?case by auto
next
  case (Submit e p q)
  let ?c1 = "c\<lparr>waitEvents := waitEvents c @ [e], submitted := submitted c @ [e]\<rparr>"
  from Submit.IH(1)[of ?c1] Submit.prems obtain c' h xs where
    "run env fuel p ?c1 = Ok (c', h)" "busy c'" "d c' = d c" "processed c' = processed c"
    "driverCalls c' = driverCalls c" "active c' = active c" "overlapped c' = overlapped c"
    "waitEvents c' = waitEvents c @ e # xs" "submitted c' = submitted c @ e # xs"
    "keepsIme p \<longrightarrow> ImeState (w c') = ImeState (w c)"
    by auto
  with Submit.prems show ?case by (simp add: Event_busy)
qed

lemma sameLoop_refl: "busy c \<Longrightarrow> sameLoop env c c"
  by (simp add: sameLoop_def)

lemma sameLoop_trans: "sameLoop env a b \<Longrightarrow> sameLoop env b c \<Longrightarrow> sameLoop env a c"
  by (auto simp: sameLoop_def)

lemma sameLoop_turn:
  assumes "busy c" "d c \<noteq> None" "waitEvents c = e # rest"
  shows "\<exists>c1 h1. run env n (ProcessEvent env (d c) e (w c))
                   (c\<lparr>waitEvents := rest, processed := processed c @ [e]\<rparr>) = Ok (c1, h1)
           \<and> busy c1 \<and> d c1 \<noteq> None \<and> sameLoop env c c1
           \<and> length (processed c1) = Suc (length (processed c))"
proof -
  let ?c0 = "c\<lparr>waitEvents := rest, processed := processed c @ [e]\<rparr>"
  let ?p = "ProcessEvent env (d c) e (w c)"
  from run_busy[of ?c0 env n ?p] assms(1,2) obtain c1 h1 xs where
    r: "run env n ?p ?c0 = Ok (c1, h1)" and
    f: "busy c1" "d c1 = d c" "processed c1 = processed c @ [e]"
       "driverCalls c1 = driverCalls c" "active c1 = active c" "overlapped c1 = overlapped c"
       "waitEvents c1 = rest @ xs" "submitted c1 = submitted c @ xs"
       "keepsIme ?p \<longrightarrow> ImeState (w c1) = ImeState (w c)"
    by auto
  have "imeStable env \<longrightarrow> keepsIme ?p" by (simp add: imeStable_def)
  with f assms(3) have "sameLoop env c c1"
    by (auto simp: sameLoop_def fifo_def)
  with r f assms(2) show ?thesis by simp
qed

lemma turns_busy:
  assumes "busy c" "d c \<noteq> None"
  shows "(\<exists>c' h. turns env fuel c handled = Ok (c', h) \<and> waitEvents c' = [] \<and> sameLoop env c c')
       \<or> (\<exists>c'. turns env fuel c handled = OutOfFuel c' \<and> waitEvents c' \<noteq> []
             \<and> length (processed c') = length (processed c) + fuel \<and> sameLoop env c c')"
  using assms
proof (induction fuel arbitrary: c handled)
  case 0
  show ?case
  proof (cases "waitEvents c")
    case Nil
    with 0 show ?thesis by (simp add: turns.simps sameLoop_refl)
  next
    case (Cons e rest)
    with 0 show ?thesis by (simp add: turns.simps sameLoop_refl)
  qed
next
  case (Suc n)
  show ?case
  proof (cases "waitEvents c")
    case Nil
    with Suc.prems show ?thesis by (simp add: turns.simps sameLoop_refl)
  next
    case (Cons e rest)
    from sameLoop_turn[OF Suc.prems Cons, of env n] obtain c1 h1 where
      r: "run env n (ProcessEvent env (d c) e (w c))
            (c\<lparr>waitEvents := rest, processed := processed c @ [e]\<rparr>) = Ok (c1, h1)" and
      f: "busy c1" "d c1 \<noteq> None" "sameLoop env c c1"
         "length (processed c1) = Suc (length (processed c))"
      by blast
    have eq: "turns env (Suc n) c handled = turns env n c1 h1"
      using Cons r by (simp add: turns.simps[of env "Suc n" c])
    from Suc.IH[OF f(1,2), of h1] show ?thesis
    proof
      assume "\<exists>c' h. turns env n c1 h1 = Ok (c', h) \<and> waitEvents c' = [] \<and> sameLoop env c1 c'"
      then obtain c' h where "turns env n c1 h1 = Ok (c', h)" "waitEvents c' = []"
        "sameLoop env c1 c'" by blast
      with eq sameLoop_trans[OF f(3)] show ?thesis by auto
    next
      assume "\<exists>c'. turns env n c1 h1 = OutOfFuel c' \<and> waitEvents c' \<noteq> []
             \<and> length (processed c') = length (processed c1) + n \<and> sameLoop env c1 c'"
      then obtain c' where "turns env n c1 h1 = OutOfFuel c'" "waitEvents c' \<noteq> []"
        "length (processed c') = length (processed c1) + n" "sameLoop env c1 c'" by blast
      with eq f(4) sameLoop_trans[OF f(3)] show ?thesis by auto
    qed
  qed
qed

text \<open>The loop as a whole, started in a state with \<open>busy\<close> set.\<close>

lemma drain_busy:
  assumes "busy c" "d c \<noteq> None"
  shows "(\<exists>c1 h. drain env fuel c handled = Ok (leaveLoop c1, h) \<and> waitEvents c1 = []
            \<and> sameLoop env (enterLoop c) c1)
       \<or> (\<exists>c'. drain env fuel c handled = OutOfFuel c' \<and> waitEvents c' \<noteq> []
             \<and> length (processed c') = length (processed c) + fuel
             \<and> sameLoop env (enterLoop c) c')"
proof -
  have b: "busy (enterLoop c)" "d (enterLoop c) \<noteq> None"
    using assms by (simp_all add: enterLoop_def)
  from turns_busy[OF b, of env fuel handled] show ?thesis
  proof
    assume "\<exists>c' h. turns env fuel (enterLoop c) handled = Ok (c', h) \<and> waitEvents c' = []
        \<and> sameLoop env (enterLoop c) c'"
    then obtain c' h where t: "turns env fuel (enterLoop c) handled = Ok (c', h)"
      "waitEvents c' = []" "sameLoop env (enterLoop c) c'" by blast
    then have "drain env fuel c handled = Ok (leaveLoop c', h)"
      by (simp add: drain.simps)
    with t(2,3) show ?thesis by blast
  next
    assume "\<exists>c'. turns env fuel (enterLoop c) handled = OutOfFuel c' \<and> waitEvents c' \<noteq> []
        \<and> length (processed c') = length (processed (enterLoop c)) + fuel
        \<and> sameLoop env (enterLoop c) c'"
    then obtain c' where t: "turns env fuel (enterLoop c) handled = OutOfFuel c'"
      "waitEvents c' \<noteq> []" "length (processed c') = length (processed (enterLoop c)) + fuel"
      "sameLoop env (enterLoop c) c'" by blast
    then have "drain env fuel c handled = OutOfFuel c'"
      by (simp add: drain.simps)
    with t show ?thesis by (auto simp: enterLoop_def)
  qed
qed

text \<open>A call of \<open>Event\<close> from outside a loop, with a driver bound: it returns, or the
  fuel is used up inside its loop; it does not panic.\<close>

lemma Event_top:
  assumes "\<not> busy c" "d c \<noteq> None"
  shows "(\<exists>c' h. Event env fuel e c = Ok (c', h) \<and> \<not> busy c' \<and> d c' = d c
            \<and> waitEvents c' = [] \<and> active c' = active c
            \<and> overlapped c' = (overlapped c \<or> 0 < active c)
            \<and> (\<exists>xs. submitted c' = submitted c @ e # xs)
            \<and> (fifo c \<longrightarrow> fifo c')
            \<and> (imeStable env \<longrightarrow> ImeState (w c') = ImeState (w c)))
       \<or> (\<exists>c'. Event env fuel e c = OutOfFuel c' \<and> busy c' \<and> d c' = d c
            \<and> waitEvents c' \<noteq> [] \<and> length (processed c') = length (processed c) + fuel
            \<and> active c' = Suc (active c)
            \<and> overlapped c' = (overlapped c \<or> 0 < active c)
            \<and> (\<exists>xs. submitted c' = submitted c @ e # xs)
            \<and> (fifo c \<longrightarrow> fifo c'))"
proof -
  let ?c1 = "c\<lparr>waitEvents := waitEvents c @ [e], submitted := submitted c @ [e], busy := True\<rparr>"
  have b: "busy ?c1" "d ?c1 \<noteq> None" using assms(2) by simp_all
  have f1: "fifo c \<longrightarrow> fifo (enterLoop ?c1)" by (simp add: fifo_def enterLoop_def)
  from drain_busy[OF b, of env fuel False] show ?thesis
  proof
    assume "\<exists>c1 h. drain env fuel ?c1 False = Ok (leaveLoop c1, h) \<and> waitEvents c1 = []
            \<and> sameLoop env (enterLoop ?c1) c1"
    then obtain c1 h where dr: "drain env fuel ?c1 False = Ok (leaveLoop c1, h)"
      and e1: "waitEvents c1 = []" and s1: "sameLoop env (enterLoop ?c1) c1" by blast
    let ?c2 = "(leaveLoop c1)\<lparr>busy := False\<rparr>"
    from s1 assms(2) have "d ?c2 \<noteq> None" by (simp add: sameLoop_def leaveLoop_def enterLoop_def)
    from afterDrain_Ok[OF this, of env e] obtain c3 where ad: "afterDrain env e ?c2 = Ok c3"
      by blast
    have ev: "Event env fuel e c = Ok (c3, h)"
      using assms dr ad by (simp add: Event.simps Let_def)
    from s1 obtain xs where xs: "submitted c1 = (submitted c @ [e]) @ xs"
      by (auto simp: sameLoop_def enterLoop_def)
    from s1 f1 have f2: "fifo c \<longrightarrow> fifo ?c2"
      by (simp add: sameLoop_def fifo_def leaveLoop_def)
    from s1 have i2: "imeStable env \<longrightarrow> ImeState (w ?c2) = ImeState (w c)"
      by (simp add: sameLoop_def leaveLoop_def enterLoop_def)
    from s1 have a2: "active ?c2 = active c" "overlapped ?c2 = (overlapped c \<or> 0 < active c)"
      "d ?c2 = d c"
      by (simp_all add: sameLoop_def leaveLoop_def enterLoop_def)
    from afterDrain_frame[OF ad] afterDrain_ime[OF ad] e1 xs f2 i2 a2
    have P: "\<not> busy c3 \<and> d c3 = d c \<and> waitEvents c3 = [] \<and> active c3 = active c
            \<and> overlapped c3 = (overlapped c \<or> 0 < active c)
            \<and> (\<exists>xs. submitted c3 = submitted c @ e # xs)
            \<and> (fifo c \<longrightarrow> fifo c3)
            \<and> (imeStable env \<longrightarrow> ImeState (w c3) = ImeState (w c))"
      by (simp add: leaveLoop_def fifo_def)
    have "\<exists>c' h. Event env fuel e c = Ok (c', h) \<and> \<not> busy c' \<and> d c' = d c
            \<and> waitEvents c' = [] \<and> active c' = active c
            \<and> overlapped c' = (overlapped c \<or> 0 < active c)
            \<and> (\<exists>xs. submitted c' = submitted c @ e # xs)
            \<and> (fifo c \<longrightarrow> fifo c')
            \<and> (imeStable env \<longrightarrow> ImeState (w c') = ImeState (w c))"
      using ev P by (intro exI[of _ c3] exI[of _ h]) (rule conjI, assumption+)
    then show ?thesis by (rule disjI1)
  next
    assume "\<exists>c'. drain env fuel ?c1 False = OutOfFuel c' \<and> waitEvents c' \<noteq> []
             \<and> length (processed c') = length (processed ?c1) + fuel
             \<and> sameLoop env (enterLoop ?c1) c'"
    then obtain c' where dr: "drain env fuel ?c1 False = OutOfFuel c'"
      and n1: "waitEvents c' \<noteq> []" "length (processed c') = length (processed ?c1) + fuel"
      and s1: "sameLoop env (enterLoop ?c1) c'" by blast
    have ev: "Event env fuel e c = OutOfFuel c'"
      using assms dr by (simp add: Event.simps Let_def)
    from s1 obtain xs where xs: "submitted c' = (submitted c @ [e]) @ xs"
      by (auto simp: sameLoop_def enterLoop_def)
    from s1 f1 n1 xs have Q: "busy c' \<and> d c' = d c
            \<and> waitEvents c' \<noteq> [] \<and> length (processed c') = length (processed c) + fuel
            \<and> active c' = Suc (active c)
            \<and> overlapped c' = (overlapped c \<or> 0 < active c)
            \<and> (\<exists>xs. submitted c' = submitted c @ e # xs)
            \<and> (fifo c \<longrightarrow> fifo c')"
      by (simp add: sameLoop_def enterLoop_def)
    have "\<exists>c'. Event env fuel e c = OutOfFuel c' \<and> busy c' \<and> d c' = d c
            \<and> waitEvents c' \<noteq> [] \<and> length (processed c') = length (processed c) + fuel
            \<and> active c' = Suc (active c)
            \<and> overlapped c' = (overlapped c \<or> 0 < active c)
            \<and> (\<exists>xs. submitted c' = submitted c @ e # xs)
            \<and> (fifo c \<longrightarrow> fifo c')"
      using ev Q by (intro exI[of _ c']) (rule conjI, assumption+)
    then show ?thesis by (rule disjI2)
  qed
qed

lemma Event_Ok:
  assumes "Event env fuel e c = Ok (c', h)"
  shows "d c' = d c" and "busy c' = busy c" and "active c' = active c"
    and "\<exists>xs. submitted c' = submitted c @ e # xs"
    and "fifo c \<Longrightarrow> fifo c'"
    and "imeStable env \<Longrightarrow> ImeState (w c') = ImeState (w c)"
    and "\<not> busy c \<Longrightarrow> waitEvents c' = []"
proof -
  from assms have dn: "d c \<noteq> None" by (auto simp: Event.simps split: if_splits)
  have "d c' = d c \<and> busy c' = busy c \<and> active c' = active c
    \<and> (\<exists>xs. submitted c' = submitted c @ e # xs)
    \<and> (fifo c \<longrightarrow> fifo c')
    \<and> (imeStable env \<longrightarrow> ImeState (w c') = ImeState (w c))
    \<and> (\<not> busy c \<longrightarrow> waitEvents c' = [])"
  proof (cases "busy c")
    case True
    with assms dn show ?thesis by (auto simp: Event_busy fifo_def)
  next
    case False
    from Event_top[OF False dn, of env fuel e] assms False show ?thesis by auto
  qed
  then show "d c' = d c" and "busy c' = busy c" and "active c' = active c"
    and "\<exists>xs. submitted c' = submitted c @ e # xs"
    and "fifo c \<Longrightarrow> fifo c'"
    and "imeStable env \<Longrightarrow> ImeState (w c') = ImeState (w c)"
    and "\<not> busy c \<Longrightarrow> waitEvents c' = []"
    by simp_all
qed

lemma pres:
  "Event env fuel e c = Ok (c', h) \<Longrightarrow> d c' = d c \<and> busy c' = busy c"
  "drain env fuel c h0 = Ok (c', h) \<Longrightarrow> busy c \<Longrightarrow> d c \<noteq> None \<Longrightarrow> d c' = d c \<and> busy c' = busy c"
proof -
  show "d c' = d c \<and> busy c' = busy c" if "Event env fuel e c = Ok (c', h)"
    using Event_Ok(1,2)[OF that] by simp
  show "d c' = d c \<and> busy c' = busy c"
    if "drain env fuel c h0 = Ok (c', h)" "busy c" "d c \<noteq> None"
    using drain_busy[OF that(2,3), of env fuel h0] that
    by (auto simp: sameLoop_def leaveLoop_def enterLoop_def)
qed

lemma grows:
  "Event env fuel e c = Ok (c', h) \<Longrightarrow> \<exists>xs. submitted c' = submitted c @ e # xs"
  by (rule Event_Ok(4))

lemma keeps_fifo:
  "Event env fuel e c = Ok (c', h) \<Longrightarrow> fifo c \<Longrightarrow> fifo c'"
  by (rule Event_Ok(5))

lemma keeps_ime:
  "Event env fuel e c = Ok (c', h) \<Longrightarrow> imeStable env \<Longrightarrow> ImeState (w c') = ImeState (w c)"
  by (rule Event_Ok(6))

lemma Event_top_empties:
  assumes "Event env fuel e c = Ok (c', h)" "\<not> busy c"
  shows "waitEvents c' = []"
  using Event_Ok(7)[OF assms] .

lemma run_silent:
  "silent p \<Longrightarrow>
   \<exists>c' h. run env fuel p c = Ok (c', h) \<and> d c' = d c \<and> busy c' = busy c
     \<and> waitEvents c' = waitEvents c \<and> submitted c' = submitted c \<and> processed c' = processed c
     \<and> active c' = active c \<and> overlapped c' = overlapped c"
proof (induction p arbitrary: c)
  case (Ret h)
  then show ?case by simp
next
  case (Modify f k)
  from Modify.IH[of "c\<lparr>w := f (w c)\<rparr>"] Modify.prems show ?case by simp
next
  case (Submit e p q)
  then show ?case by simp
qed

lemma Event_silent:
  assumes "silentEnv env" "d c \<noteq> None" "\<not> busy c" "waitEvents c = []"
  shows "\<exists>c' h. Event env (Suc n) e c = Ok (c', h) \<and> d c' = d c \<and> \<not> busy c'
     \<and> waitEvents c' = [] \<and> submitted c' = submitted c @ [e] \<and> processed c' = processed c @ [e]"
proof -
  let ?c1 = "c\<lparr>waitEvents := waitEvents c @ [e], submitted := submitted c @ [e], busy := True\<rparr>"
  let ?c2 = "(enterLoop ?c1)\<lparr>waitEvents := [], processed := processed c @ [e]\<rparr>"
  let ?p = "ProcessEvent env (d (enterLoop ?c1)) e (w (enterLoop ?c1))"
  from assms(1) have "silent ?p" by (simp add: silentEnv_def)
  from run_silent[OF this, of env n ?c2] obtain c3 h where
    r: "run env n ?p ?c2 = Ok (c3, h)" and
    f: "d c3 = d c" "busy c3" "waitEvents c3 = []" "submitted c3 = submitted c @ [e]"
       "processed c3 = processed c @ [e]"
    by (auto simp: enterLoop_def)
  have "turns env (Suc n) (enterLoop ?c1) False = Ok (c3, h)"
    using r f(3) assms(4)
    by (simp add: turns.simps[of env "Suc n"] turns.simps[of env n c3] enterLoop_def)
  then have dr: "drain env (Suc n) ?c1 False = Ok (leaveLoop c3, h)"
    by (simp add: drain.simps)
  from afterDrain_Ok[of "(leaveLoop c3)\<lparr>busy := False\<rparr>" env e] f(1) assms(2) obtain c' where
    ad: "afterDrain env e ((leaveLoop c3)\<lparr>busy := False\<rparr>) = Ok c'"
    by (auto simp: leaveLoop_def)
  have "Event env (Suc n) e c = Ok (c', h)"
    using assms(2,3) dr ad by (simp add: Event.simps Let_def)
  with afterDrain_frame[OF ad] f show ?thesis by (simp add: leaveLoop_def)
qed

lemmas ex_defs = fresh_def freshWindow_def quiet_def chatty_def emptyChan_def keyRange_def

lemmas ev_defs =
  Event.simps drain.simps turns.simps enterLoop_def leaveLoop_def afterDrain_def
  configurePending_def performPending_def tryrecv_def Let_def

subsection \<open>The dispatcher\<close>

text \<open>
  Claim C1. While a loop is running (\<open>busy\<close> is set), \<open>Event e\<close> puts \<open>e\<close> at the end
  of the waiting events and returns true, whatever the fuel: it starts no loop of its own.
  Whatever \<open>ProcessEvent\<close> does inside the loop therefore returns with \<open>busy\<close> still set,
  with the events it submitted added to the queue in the order of submission, with no event
  handed to \<open>ProcessEvent\<close> meanwhile and with no loop started.

  A call of \<open>Event\<close> from outside a loop, with a driver bound and no loop running, ends in
  one of two ways, for every fuel. Either it returns: then \<open>busy\<close> is clear, no loop runs,
  nothing waits, and every event submitted up to the return, the ones submitted during
  processing included, has been handed to \<open>ProcessEvent\<close> in the order of submission. Or
  the fuel is used up inside its loop, after as many turns as there was fuel and with
  events still waiting: then \<open>busy\<close> is set, one loop runs, and the events submitted are
  the events processed followed by the events that wait. In both cases no loop was ever
  started while another was running. The call returns whenever \<open>ProcessEvent\<close> submits
  no events of its own.
\<close>

theorem Event_reentrant_fifo:
  "(d c \<noteq> None \<and> busy c \<longrightarrow>
      Event env fuel e c =
        Ok (c\<lparr>waitEvents := waitEvents c @ [e], submitted := submitted c @ [e]\<rparr>, True))
   \<and> (d c \<noteq> None \<and> busy c \<longrightarrow>
        (\<exists>c1 h1 xs. run env fuel p c = Ok (c1, h1) \<and> busy c1 \<and> processed c1 = processed c
           \<and> active c1 = active c \<and> overlapped c1 = overlapped c
           \<and> waitEvents c1 = waitEvents c @ xs \<and> submitted c1 = submitted c @ xs))
   \<and> (d c \<noteq> None \<and> \<not> busy c \<and> active c = 0 \<and> \<not> overlapped c
        \<and> submitted c = processed c @ waitEvents c \<longrightarrow>
        (\<exists>c1 h1. Event env fuel e c = Ok (c1, h1) \<and> \<not> busy c1 \<and> active c1 = 0
           \<and> \<not> overlapped c1 \<and> waitEvents c1 = [] \<and> processed c1 = submitted c1
           \<and> (\<exists>xs. submitted c1 = submitted c @ e # xs))
        \<or> (\<exists>c1. Event env fuel e c = OutOfFuel c1 \<and> busy c1 \<and> active c1 = 1
           \<and> \<not> overlapped c1 \<and> waitEvents c1 \<noteq> []
           \<and> submitted c1 = processed c1 @ waitEvents c1
           \<and> length (processed c1) = length (processed c) + fuel
           \<and> (\<exists>xs. submitted c1 = submitted c @ e # xs)))
   \<and> (\<not> busy c \<and> submitted c = processed c @ waitEvents c \<and> Event env fuel e c = Ok (c', h) \<longrightarrow>
        \<not> busy c' \<and> waitEvents c' = [] \<and> processed c' = submitted c'
        \<and> (\<exists>xs. submitted c' = submitted c @ e # xs))
   \<and> (silentEnv env \<and> d c \<noteq> None \<and> \<not> busy c \<and> waitEvents c = [] \<longrightarrow>
        (\<exists>c1 h1. Event env (Suc n) e c = Ok (c1, h1)))"
proof -
  have nested:
    "Event env fuel e c =
        Ok (c\<lparr>waitEvents := waitEvents c @ [e], submitted := submitted c @ [e]\<rparr>, True)"
    if "d c \<noteq> None \<and> busy c"
    using that by (simp add: Event_busy)
  have handler:
    "\<exists>c1 h1 xs. run env fuel p c = Ok (c1, h1) \<and> busy c1 \<and> processed c1 = processed c
           \<and> active c1 = active c \<and> overlapped c1 = overlapped c
           \<and> waitEvents c1 = waitEvents c @ xs \<and> submitted c1 = submitted c @ xs"
    if "d c \<noteq> None \<and> busy c"
  proof -
    from that have "d c \<noteq> None" "busy c" by simp_all
    from run_busy[OF this, of env fuel p] show ?thesis by blast
  qed
  have ends:
    "(\<exists>c1 h1. Event env fuel e c = Ok (c1, h1) \<and> \<not> busy c1 \<and> active c1 = 0
           \<and> \<not> overlapped c1 \<and> waitEvents c1 = [] \<and> processed c1 = submitted c1
           \<and> (\<exists>xs. submitted c1 = submitted c @ e # xs))
        \<or> (\<exists>c1. Event env fuel e c = OutOfFuel c1 \<and> busy c1 \<and> active c1 = 1
           \<and> \<not> overlapped c1 \<and> waitEvents c1 \<noteq> []
           \<and> submitted c1 = processed c1 @ waitEvents c1
           \<and> length (processed c1) = length (processed c) + fuel
           \<and> (\<exists>xs. submitted c1 = submitted c @ e # xs))"
    if a: "d c \<noteq> None \<and> \<not> busy c \<and> active c = 0 \<and> \<not> overlapped c
        \<and> submitted c = processed c @ waitEvents c"
  proof -
    from a have nb: "\<not> busy c" and dn: "d c \<noteq> None" and f: "fifo c"
      and z: "active c = 0" "\<not> overlapped c"
      by (simp_all add: fifo_def)
    from Event_top[OF nb dn, of env fuel e] show ?thesis
    proof
      assume "\<exists>c' h. Event env fuel e c = Ok (c', h) \<and> \<not> busy c' \<and> d c' = d c
            \<and> waitEvents c' = [] \<and> active c' = active c
            \<and> overlapped c' = (overlapped c \<or> 0 < active c)
            \<and> (\<exists>xs. submitted c' = submitted c @ e # xs)
            \<and> (fifo c \<longrightarrow> fifo c')
            \<and> (imeStable env \<longrightarrow> ImeState (w c') = ImeState (w c))"
      then obtain c1 h1 xs where ev: "Event env fuel e c = Ok (c1, h1)"
        and g: "\<not> busy c1" "waitEvents c1 = []" "active c1 = active c"
          "overlapped c1 = (overlapped c \<or> 0 < active c)"
          "submitted c1 = submitted c @ e # xs" "fifo c \<longrightarrow> fifo c1"
        by (elim exE conjE) (rule that; assumption)
      from g(3,4) z have a0: "active c1 = 0" "\<not> overlapped c1" by simp_all
      from g(2,6) f have p3: "processed c1 = submitted c1" by (simp add: fifo_def)
      from g(5) have X: "\<exists>xs. submitted c1 = submitted c @ e # xs" by blast
      from g(1,2) a0 p3 X have P: "\<not> busy c1 \<and> active c1 = 0
           \<and> \<not> overlapped c1 \<and> waitEvents c1 = [] \<and> processed c1 = submitted c1
           \<and> (\<exists>xs. submitted c1 = submitted c @ e # xs)"
        by blast
      have "\<exists>c1 h1. Event env fuel e c = Ok (c1, h1) \<and> \<not> busy c1 \<and> active c1 = 0
           \<and> \<not> overlapped c1 \<and> waitEvents c1 = [] \<and> processed c1 = submitted c1
           \<and> (\<exists>xs. submitted c1 = submitted c @ e # xs)"
        using ev P by (intro exI[of _ c1] exI[of _ h1]) (rule conjI, assumption+)
      then show ?thesis by (rule disjI1)
    next
      assume "\<exists>c'. Event env fuel e c = OutOfFuel c' \<and> busy c' \<and> d c' = d c
            \<and> waitEvents c' \<noteq> [] \<and> length (processed c') = length (processed c) + fuel
            \<and> active c' = Suc (active c)
            \<and> overlapped c' = (overlapped c \<or> 0 < active c)
            \<and> (\<exists>xs. submitted c' = submitted c @ e # xs)
            \<and> (fifo c \<longrightarrow> fifo c')"
      then obtain c1 xs where ev: "Event env fuel e c = OutOfFuel c1"
        and g: "busy c1" "waitEvents c1 \<noteq> []"
          "length (processed c1) = length (processed c) + fuel" "active c1 = Suc (active c)"
          "overlapped c1 = (overlapped c \<or> 0 < active c)"
          "submitted c1 = submitted c @ e # xs" "fifo c \<longrightarrow> fifo c1"
        by (elim exE conjE) (rule that; assumption)
      from g(4,5) z have a0: "active c1 = 1" "\<not> overlapped c1" by simp_all
      from g(7) f have p3: "submitted c1 = processed c1 @ waitEvents c1" by (simp add: fifo_def)
      from g(6) have X: "\<exists>xs. submitted c1 = submitted c @ e # xs" by blast
      from g(1,2,3) a0 p3 X have P: "busy c1 \<and> active c1 = 1
           \<and> \<not> overlapped c1 \<and> waitEvents c1 \<noteq> []
           \<and> submitted c1 = processed c1 @ waitEvents c1
           \<and> length (processed c1) = length (processed c) + fuel
           \<and> (\<exists>xs. submitted c1 = submitted c @ e # xs)"
        by blast
      have "\<exists>c1. Event env fuel e c = OutOfFuel c1 \<and> busy c1 \<and> active c1 = 1
           \<and> \<not> overlapped c1 \<and> waitEvents c1 \<noteq> []
           \<and> submitted c1 = processed c1 @ waitEvents c1
           \<and> length (processed c1) = length (processed c) + fuel
           \<and> (\<exists>xs. submitted c1 = submitted c @ e # xs)"
        using ev P by (intro exI[of _ c1]) (rule conjI, assumption+)
      then show ?thesis by (rule disjI2)
    qed
  qed
  have outer:
    "\<not> busy c' \<and> waitEvents c' = [] \<and> processed c' = submitted c'
        \<and> (\<exists>xs. submitted c' = submitted c @ e # xs)"
    if a: "\<not> busy c \<and> submitted c = processed c @ waitEvents c \<and> Event env fuel e c = Ok (c', h)"
  proof -
    from a have ev: "Event env fuel e c = Ok (c', h)" and nb: "\<not> busy c" and f: "fifo c"
      by (simp_all add: fifo_def)
    from pres(1)[OF ev] nb have 1: "\<not> busy c'" by simp
    from Event_top_empties[OF ev nb] have 2: "waitEvents c' = []" .
    from keeps_fifo[OF ev f] 2 have 3: "processed c' = submitted c'" by (simp add: fifo_def)
    from grows[OF ev] have 4: "\<exists>xs. submitted c' = submitted c @ e # xs" .
    from 1 2 3 4 show ?thesis by simp
  qed
  have returns: "\<exists>c1 h1. Event env (Suc n) e c = Ok (c1, h1)"
    if "silentEnv env \<and> d c \<noteq> None \<and> \<not> busy c \<and> waitEvents c = []"
    using Event_silent[of env c n e] that by blast
  from nested handler ends outer returns show ?thesis by blast
qed

theorem Event_reentrant_fifo_witness:
  "Event chatty 0 (OtherEvent 7) (fresh\<lparr>busy := True\<rparr>) =
     Ok (fresh\<lparr>busy := True, waitEvents := [OtherEvent 7], submitted := [OtherEvent 7]\<rparr>, True)
   \<and> (\<exists>c1 h1. run chatty 0 (ProcessEvent chatty (Some 1) (OtherEvent 0) freshWindow)
                 (fresh\<lparr>busy := True\<rparr>) = Ok (c1, h1)
         \<and> processed c1 = [] \<and> waitEvents c1 = submitted c1 \<and> \<not> overlapped c1)
   \<and> Event chatty (Suc (Suc (Suc 0))) (OtherEvent 0) fresh =
       Ok (fresh\<lparr>submitted := [OtherEvent 0, OtherEvent 1, OtherEvent 2],
                 processed := [OtherEvent 0, OtherEvent 1, OtherEvent 2]\<rparr>, True)
   \<and> processed (fresh\<lparr>submitted := [OtherEvent 0, OtherEvent 1, OtherEvent 2],
                 processed := [OtherEvent 0, OtherEvent 1, OtherEvent 2]\<rparr>)
      = submitted (fresh\<lparr>submitted := [OtherEvent 0, OtherEvent 1, OtherEvent 2],
                 processed := [OtherEvent 0, OtherEvent 1, OtherEvent 2]\<rparr>)
   \<and> Event chatty (Suc (Suc 0)) (OtherEvent 0) fresh =
       OutOfFuel (fresh\<lparr>busy := True, active := 1,
                    waitEvents := [OtherEvent 2],
                    submitted := [OtherEvent 0, OtherEvent 1, OtherEvent 2],
                    processed := [OtherEvent 0, OtherEvent 1]\<rparr>)
   \<and> \<not> overlapped (fresh\<lparr>busy := True, active := 1,
                    waitEvents := [OtherEvent 2],
                    submitted := [OtherEvent 0, OtherEvent 1, OtherEvent 2],
                    processed := [OtherEvent 0, OtherEvent 1]\<rparr>)"
proof -
  let ?c = "fresh\<lparr>submitted := [OtherEvent 0, OtherEvent 1, OtherEvent 2],
                 processed := [OtherEvent 0, OtherEvent 1, OtherEvent 2]\<rparr>"
  let ?o = "fresh\<lparr>busy := True, active := 1,
                    waitEvents := [OtherEvent 2],
                    submitted := [OtherEvent 0, OtherEvent 1, OtherEvent 2],
                    processed := [OtherEvent 0, OtherEvent 1]\<rparr>"
  have run: "Event chatty (Suc (Suc (Suc 0))) (OtherEvent 0) fresh = Ok (?c, True)"
    by (simp add: ex_defs ev_defs)
  have out: "Event chatty (Suc (Suc 0)) (OtherEvent 0) fresh = OutOfFuel ?o"
    by (simp add: ex_defs ev_defs)
  have b: "d (fresh\<lparr>busy := True\<rparr>) \<noteq> None \<and> busy (fresh\<lparr>busy := True\<rparr>)"
    by (simp add: fresh_def)
  have f: "d fresh \<noteq> None \<and> \<not> busy fresh \<and> active fresh = 0 \<and> \<not> overlapped fresh
      \<and> submitted fresh = processed fresh @ waitEvents fresh"
    by (simp add: fresh_def)
  note nested = Event_reentrant_fifo [of "fresh\<lparr>busy := True\<rparr>" chatty 0 "OtherEvent 7"
      "ProcessEvent chatty (Some 1) (OtherEvent 0) freshWindow"]
  note outer = Event_reentrant_fifo [of fresh chatty "Suc (Suc (Suc 0))" "OtherEvent 0" _ ?c True]
  note cut = Event_reentrant_fifo [of fresh chatty "Suc (Suc 0)" "OtherEvent 0"]
  from nested b have 1: "Event chatty 0 (OtherEvent 7) (fresh\<lparr>busy := True\<rparr>) =
     Ok (fresh\<lparr>busy := True, waitEvents := [OtherEvent 7], submitted := [OtherEvent 7]\<rparr>, True)"
    by (simp add: fresh_def)
  from nested b have 2: "\<exists>c1 h1. run chatty 0 (ProcessEvent chatty (Some 1) (OtherEvent 0) freshWindow)
                 (fresh\<lparr>busy := True\<rparr>) = Ok (c1, h1)
         \<and> processed c1 = [] \<and> waitEvents c1 = submitted c1 \<and> \<not> overlapped c1"
    by (auto simp: fresh_def)
  from outer f run have 3: "processed ?c = submitted ?c" by simp
  from cut f out have 4: "\<not> overlapped ?o" by simp
  from 1 2 3 4 run out show ?thesis by simp
qed

text \<open>
  Claim C5. \<open>Event\<close> with no driver bound panics with the message
  \<open>event while no driver active\<close> in the very state in which it was called: the event
  has not been put in the queue, nothing has been handed to \<open>ProcessEvent\<close>, no loop has
  been started. This holds for every event, all collaborators and every fuel, and so the
  panic also ends whatever \<open>ProcessEvent\<close> was doing when it made the call.
\<close>

theorem Event_without_driver:
  "d c = None \<Longrightarrow>
     Event env fuel e c = Panic ''event while no driver active'' c
     \<and> run env fuel (Submit e p q) c = Panic ''event while no driver active'' c"
  by (simp add: Event.simps)

theorem Event_without_driver_witness:
  "d (fresh\<lparr>d := None\<rparr>) = None
   \<and> Event quiet (Suc 0) WakeupEvent (fresh\<lparr>d := None\<rparr>) =
       Panic ''event while no driver active'' (fresh\<lparr>d := None\<rparr>)
   \<and> waitEvents (fresh\<lparr>d := None\<rparr>) = [] \<and> processed (fresh\<lparr>d := None\<rparr>) = []"
  using Event_without_driver [of "fresh\<lparr>d := None\<rparr>" quiet "Suc 0" WakeupEvent]
  by (simp add: fresh_def)

subsection \<open>The semantic tree\<close>

text \<open>
  Claim C7. When the window has no previous tree once \<open>UpdateSemantics\<close> has run,
  \<open>AppendSemanticDiffs\<close> returns the slice it was given, for every slice; the result is an
  ordinary return value, there is no error to signal.
\<close>

theorem AppendSemanticDiffs_first_frame:
  "PrevTree (Semantic (UpdateSemantics env (w c))) = [] \<Longrightarrow>
     AppendSemanticDiffs env ds c = (ds, c\<lparr>w := UpdateSemantics env (w c)\<rparr>)"
  by (simp add: AppendSemanticDiffs_def Let_def)

theorem AppendSemanticDiffs_first_frame_witness:
  "PrevTree (Semantic (UpdateSemantics quiet (w fresh))) = []
   \<and> AppendSemanticDiffs quiet [4, 2] fresh = ([4, 2], fresh)"
  using AppendSemanticDiffs_first_frame [of quiet fresh "[4, 2]"]
  by (simp add: ex_defs)

subsection \<open>The editor\<close>

lemma discard_Ok: "discard r = Ok c' \<longleftrightarrow> (\<exists>h. r = Ok (c', h))"
  by (auto simp: discard_def split: result.splits)

lemma signed_min:
  "(if e <s s then e else s) = (word_of_int (min (sint s) (sint e)) :: goint)"
  by (simp add: word_sless_alt min_def)

lemma collapsed: "r\<lparr>Start := n, End := n\<rparr> = \<lparr>Start = n, End = n\<rparr>"
  by (cases r) simp
lemma imeStable_quiet: "imeStable quiet"
  by (simp add: imeStable_def quiet_def)

text \<open>
  Claim C9. \<open>SetEditorSnippet\<close> does not write to the editor state. With \<open>r\<close> equal
  to the current snippet range the whole state is returned as it is. Otherwise all it does
  is to call \<open>Event\<close>: the window is untouched when that call only queues the event (a
  loop is running), and \<open>ImeState\<close>, with its selection, composing region and snippet,
  is what it was before for all collaborators (\<open>ProcessEvent\<close>, \<open>UpdateState\<close>) that do
  not write to it themselves.
\<close>

theorem SetEditorSnippet_frame:
  "(Snippet_Range (Snippet (ImeState (w c))) = r \<longrightarrow> SetEditorSnippet env fuel r c = Ok c)
   \<and> (d c \<noteq> None \<and> busy c \<longrightarrow>
        (\<exists>c1. SetEditorSnippet env fuel r c = Ok c1 \<and> w c1 = w c))
   \<and> (imeStable env \<and> SetEditorSnippet env fuel r c = Ok c' \<longrightarrow>
        ImeState (w c') = ImeState (w c))"
proof -
  have same: "SetEditorSnippet env fuel r c = Ok c"
    if "Snippet_Range (Snippet (ImeState (w c))) = r"
    using that by (simp add: SetEditorSnippet_def EditorState_def)
  have nested: "\<exists>c1. SetEditorSnippet env fuel r c = Ok c1 \<and> w c1 = w c"
    if "d c \<noteq> None \<and> busy c"
    using that by (simp add: SetEditorSnippet_def Event_busy discard_def)
  have stable: "ImeState (w c') = ImeState (w c)"
    if a: "imeStable env \<and> SetEditorSnippet env fuel r c = Ok c'"
  proof (cases "Snippet_Range (Snippet (ImeState (w c))) = r")
    case True
    with a same show ?thesis by simp
  next
    case False
    with a obtain h where "Event env fuel (SnippetEvent r) c = Ok (c', h)"
      by (auto simp: SetEditorSnippet_def EditorState_def discard_Ok)
    from keeps_ime(1)[OF this] a show ?thesis by simp
  qed
  from same nested stable show ?thesis by blast
qed
theorem SetEditorSnippet_frame_witness:
  "SetEditorSnippet quiet (Suc 0) (keyRange 0 0) fresh = Ok fresh
   \<and> (\<exists>c1. SetEditorSnippet quiet 0 (keyRange 1 2) (fresh\<lparr>busy := True\<rparr>) = Ok c1 \<and> w c1 = freshWindow)
   \<and> SetEditorSnippet quiet (Suc 0) (keyRange 1 2) fresh =
        Ok (fresh\<lparr>submitted := [SnippetEvent (keyRange 1 2)], processed := [SnippetEvent (keyRange 1 2)]\<rparr>)
   \<and> ImeState (w (fresh\<lparr>submitted := [SnippetEvent (keyRange 1 2)], processed := [SnippetEvent (keyRange 1 2)]\<rparr>))
       = ImeState (w fresh)"
proof -
  let ?c = "fresh\<lparr>submitted := [SnippetEvent (keyRange 1 2)], processed := [SnippetEvent (keyRange 1 2)]\<rparr>"
  have run: "SetEditorSnippet quiet (Suc 0) (keyRange 1 2) fresh = Ok ?c"
    by (simp add: SetEditorSnippet_def EditorState_def discard_def ex_defs ev_defs)
  from SetEditorSnippet_frame [of fresh "keyRange 0 0" quiet "Suc 0"]
  have 1: "SetEditorSnippet quiet (Suc 0) (keyRange 0 0) fresh = Ok fresh"
    by (simp add: fresh_def freshWindow_def)
  from SetEditorSnippet_frame [of "fresh\<lparr>busy := True\<rparr>" "keyRange 1 2" quiet 0]
  have 2: "\<exists>c1. SetEditorSnippet quiet 0 (keyRange 1 2) (fresh\<lparr>busy := True\<rparr>) = Ok c1 \<and> w c1 = freshWindow"
    by (simp add: fresh_def)
  from SetEditorSnippet_frame [of fresh "keyRange 1 2" quiet "Suc 0" ?c] run imeStable_quiet
  have 3: "ImeState (w ?c) = ImeState (w fresh)"
    by blast
  from 1 2 3 run show ?thesis by simp
qed

text \<open>
  Claim C2, as stated, fails: \<open>SetEditorSnippet\<close> does not store \<open>r\<close>. With
  collaborators that touch nothing, a call with \<open>r = (1, 2)\<close> on a snippet range
  \<open>(0, 0)\<close> leaves the range at \<open>(0, 0)\<close>, and a second call with the same \<open>r\<close> emits
  a second \<open>SnippetEvent\<close>.
\<close>

theorem SetEditorSnippet_stores_counterexample:
  "SetEditorSnippet quiet (Suc 0) (keyRange 1 2) fresh =
     Ok (fresh\<lparr>submitted := [SnippetEvent (keyRange 1 2)], processed := [SnippetEvent (keyRange 1 2)]\<rparr>)
   \<and> Snippet_Range (Snippet (EditorState
        (fresh\<lparr>submitted := [SnippetEvent (keyRange 1 2)], processed := [SnippetEvent (keyRange 1 2)]\<rparr>)))
       = keyRange 0 0
   \<and> keyRange 0 0 \<noteq> keyRange 1 2
   \<and> SetEditorSnippet quiet (Suc 0) (keyRange 1 2)
        (fresh\<lparr>submitted := [SnippetEvent (keyRange 1 2)], processed := [SnippetEvent (keyRange 1 2)]\<rparr>) =
     Ok (fresh\<lparr>submitted := [SnippetEvent (keyRange 1 2), SnippetEvent (keyRange 1 2)],
               processed := [SnippetEvent (keyRange 1 2), SnippetEvent (keyRange 1 2)]\<rparr>)"
  by (simp add: SetEditorSnippet_def EditorState_def discard_def ex_defs ev_defs)

text \<open>
  Claim C2, amended. With \<open>r\<close> equal to the current snippet range \<open>SetEditorSnippet\<close>
  returns the state as it is and emits nothing. Otherwise it emits \<open>SnippetEvent r\<close>
  through \<open>Event\<close> and stores nothing itself: the event is queued when a loop is
  running, and it is the first event submitted by the call in any case. Calling it twice
  with the same \<open>r\<close> emits \<open>SnippetEvent r\<close> twice when the collaborators leave the
  editor state alone.
\<close>

theorem SetEditorSnippet_emits:
  "(Snippet_Range (Snippet (EditorState c)) = r \<longrightarrow> SetEditorSnippet env fuel r c = Ok c)
   \<and> (Snippet_Range (Snippet (EditorState c)) \<noteq> r \<and> d c \<noteq> None \<and> busy c \<longrightarrow>
        SetEditorSnippet env fuel r c =
          Ok (c\<lparr>waitEvents := waitEvents c @ [SnippetEvent r],
                submitted := submitted c @ [SnippetEvent r]\<rparr>))
   \<and> (Snippet_Range (Snippet (EditorState c)) \<noteq> r \<and> SetEditorSnippet env fuel r c = Ok c' \<longrightarrow>
        (\<exists>xs. submitted c' = submitted c @ SnippetEvent r # xs))
   \<and> (Snippet_Range (Snippet (EditorState c)) \<noteq> r \<and> imeStable env
        \<and> SetEditorSnippet env fuel r c = Ok c' \<and> SetEditorSnippet env fuel2 r c' = Ok c'' \<longrightarrow>
        (\<exists>xs ys. submitted c'' = submitted c @ SnippetEvent r # xs @ SnippetEvent r # ys))"
proof -
  have same: "SetEditorSnippet env fuel r c = Ok c"
    if "Snippet_Range (Snippet (EditorState c)) = r"
    using that by (simp add: SetEditorSnippet_def)
  have nested: "SetEditorSnippet env fuel r c =
          Ok (c\<lparr>waitEvents := waitEvents c @ [SnippetEvent r],
                submitted := submitted c @ [SnippetEvent r]\<rparr>)"
    if "Snippet_Range (Snippet (EditorState c)) \<noteq> r \<and> d c \<noteq> None \<and> busy c"
    using that by (simp add: SetEditorSnippet_def Event_busy discard_def)
  have once: "\<exists>xs. submitted c1 = submitted c0 @ SnippetEvent r # xs"
    if "Snippet_Range (Snippet (EditorState c0)) \<noteq> r \<and> SetEditorSnippet env f r c0 = Ok c1"
    for c0 c1 f
  proof -
    from that obtain h where "Event env f (SnippetEvent r) c0 = Ok (c1, h)"
      by (auto simp: SetEditorSnippet_def discard_Ok)
    from grows(1)[OF this] show ?thesis .
  qed
  have twice: "\<exists>xs ys. submitted c'' = submitted c @ SnippetEvent r # xs @ SnippetEvent r # ys"
    if a: "Snippet_Range (Snippet (EditorState c)) \<noteq> r \<and> imeStable env
        \<and> SetEditorSnippet env fuel r c = Ok c' \<and> SetEditorSnippet env fuel2 r c' = Ok c''"
  proof -
    from a obtain h where "Event env fuel (SnippetEvent r) c = Ok (c', h)"
      by (auto simp: SetEditorSnippet_def discard_Ok)
    from keeps_ime(1)[OF this] a have "Snippet_Range (Snippet (EditorState c')) \<noteq> r"
      by (simp add: EditorState_def)
    with once[of c' fuel2 c''] a obtain ys where 2: "submitted c'' = submitted c' @ SnippetEvent r # ys"
      by blast
    from once[of c fuel c'] a obtain xs where "submitted c' = submitted c @ SnippetEvent r # xs"
      by blast
    with 2 have "submitted c'' = submitted c @ SnippetEvent r # xs @ SnippetEvent r # ys"
      by simp
    then show ?thesis by blast
  qed
  from same nested once[of c fuel c'] twice show ?thesis by blast
qed

theorem SetEditorSnippet_emits_witness:
  "SetEditorSnippet quiet (Suc 0) (keyRange 0 0) fresh = Ok fresh
   \<and> SetEditorSnippet quiet 0 (keyRange 1 2) (fresh\<lparr>busy := True\<rparr>) =
        Ok (fresh\<lparr>busy := True, waitEvents := [SnippetEvent (keyRange 1 2)],
                  submitted := [SnippetEvent (keyRange 1 2)]\<rparr>)
   \<and> SetEditorSnippet quiet (Suc 0) (keyRange 1 2) fresh =
        Ok (fresh\<lparr>submitted := [SnippetEvent (keyRange 1 2)], processed := [SnippetEvent (keyRange 1 2)]\<rparr>)
   \<and> (\<exists>xs. submitted (fresh\<lparr>submitted := [SnippetEvent (keyRange 1 2)], processed := [SnippetEvent (keyRange 1 2)]\<rparr>)
          = submitted fresh @ SnippetEvent (keyRange 1 2) # xs)"
proof -
  let ?c = "fresh\<lparr>submitted := [SnippetEvent (keyRange 1 2)], processed := [SnippetEvent (keyRange 1 2)]\<rparr>"
  have run: "SetEditorSnippet quiet (Suc 0) (keyRange 1 2) fresh = Ok ?c"
    by (simp add: SetEditorSnippet_def EditorState_def discard_def ex_defs ev_defs)
  have ne: "Snippet_Range (Snippet (EditorState fresh)) \<noteq> keyRange 1 2"
    by (simp add: EditorState_def ex_defs)
  from SetEditorSnippet_emits [of fresh "keyRange 0 0" quiet "Suc 0"]
  have 1: "SetEditorSnippet quiet (Suc 0) (keyRange 0 0) fresh = Ok fresh"
    by (simp add: EditorState_def fresh_def freshWindow_def)
  from SetEditorSnippet_emits [of "fresh\<lparr>busy := True\<rparr>" "keyRange 1 2" quiet 0]
  have 2: "SetEditorSnippet quiet 0 (keyRange 1 2) (fresh\<lparr>busy := True\<rparr>) =
        Ok (fresh\<lparr>busy := True, waitEvents := [SnippetEvent (keyRange 1 2)],
                  submitted := [SnippetEvent (keyRange 1 2)]\<rparr>)"
    by (simp add: EditorState_def ex_defs)
  from SetEditorSnippet_emits [of fresh "keyRange 1 2" quiet "Suc 0" ?c] run ne
  have 3: "\<exists>xs. submitted ?c = submitted fresh @ SnippetEvent (keyRange 1 2) # xs"
    by blast
  from 1 2 3 run show ?thesis by simp
qed

lemma EditorReplace_busy:
  "d c \<noteq> None \<Longrightarrow> busy c \<Longrightarrow>
   EditorReplace env fuel r text c =
     Ok (c\<lparr>w := (w c)\<lparr>ImeState := Replace env r text (ImeState (w c))\<rparr>,
           waitEvents := waitEvents c @
             [EditEvent r text, SnippetEvent (Snippet_Range (Snippet (Replace env r text (ImeState (w c)))))],
           submitted := submitted c @
             [EditEvent r text, SnippetEvent (Snippet_Range (Snippet (Replace env r text (ImeState (w c)))))]\<rparr>)"
  by (simp add: EditorReplace_def Let_def Event_busy discard_def)

lemma EditorReplace_Ok:
  assumes "EditorReplace env fuel r text c = Ok c'"
  obtains c2 h1 h2 where
    "Event env fuel (EditEvent r text) (c\<lparr>w := (w c)\<lparr>ImeState := Replace env r text (ImeState (w c))\<rparr>\<rparr>) = Ok (c2, h1)"
    "Event env fuel (SnippetEvent (Snippet_Range (Snippet (ImeState (w c2))))) c2 = Ok (c', h2)"
  using assms
  by (auto simp: EditorReplace_def Let_def discard_Ok split: result.splits prod.splits)

lemma EditorReplace_trace:
  assumes "EditorReplace env fuel r text c = Ok c'"
  shows "\<exists>xs ys s. submitted c' = submitted c @ EditEvent r text # xs @ SnippetEvent s # ys
           \<and> (imeStable env \<longrightarrow> s = Snippet_Range (Snippet (Replace env r text (ImeState (w c)))))"
    and "d c' = d c" and "busy c' = busy c" and "fifo c \<Longrightarrow> fifo c'"
    and "imeStable env \<Longrightarrow> ImeState (w c') = Replace env r text (ImeState (w c))"
proof -
  let ?c1 = "c\<lparr>w := (w c)\<lparr>ImeState := Replace env r text (ImeState (w c))\<rparr>\<rparr>"
  from assms obtain c2 h1 h2 where
    e1: "Event env fuel (EditEvent r text) ?c1 = Ok (c2, h1)" and
    e2: "Event env fuel (SnippetEvent (Snippet_Range (Snippet (ImeState (w c2))))) c2 = Ok (c', h2)"
    by (rule EditorReplace_Ok)
  from grows(1)[OF e1] obtain xs where 1: "submitted c2 = submitted c @ EditEvent r text # xs"
    by auto
  from grows(1)[OF e2] obtain ys where
    2: "submitted c' = submitted c2 @ SnippetEvent (Snippet_Range (Snippet (ImeState (w c2)))) # ys"
    by auto
  have 3: "ImeState (w c2) = Replace env r text (ImeState (w c))" if "imeStable env"
    using keeps_ime(1)[OF e1 that] by simp
  from 1 2 have 4: "submitted c' = submitted c @ EditEvent r text # xs @
      SnippetEvent (Snippet_Range (Snippet (ImeState (w c2)))) # ys" by simp
  show "\<exists>xs ys s. submitted c' = submitted c @ EditEvent r text # xs @ SnippetEvent s # ys
           \<and> (imeStable env \<longrightarrow> s = Snippet_Range (Snippet (Replace env r text (ImeState (w c)))))"
    by (rule exI[of _ xs], rule exI[of _ ys],
        rule exI[of _ "Snippet_Range (Snippet (ImeState (w c2)))"]) (simp add: 3 4)
  from pres(1)[OF e1] pres(1)[OF e2] show "d c' = d c" and "busy c' = busy c" by simp_all
  show "fifo c'" if "fifo c"
  proof -
    from that have "fifo ?c1" by (simp add: fifo_def)
    from keeps_fifo(1)[OF e2 keeps_fifo(1)[OF e1 this]] show ?thesis .
  qed
  show "ImeState (w c') = Replace env r text (ImeState (w c))" if "imeStable env"
    using keeps_ime(1)[OF e2 that] 3[OF that] by simp
qed

lemma EditorInsert_Ok:
  assumes "EditorInsert env fuel text c = Ok c'"
  obtains c1 h where
    "EditorReplace env fuel (Selection_Range (Selection (ImeState (w c)))) text c = Ok c1"
    "Event env fuel
       (SelectionEvent \<lparr>Start = caretAfter (Selection_Range (Selection (ImeState (w c)))) text,
                        End = caretAfter (Selection_Range (Selection (ImeState (w c)))) text\<rparr>)
       (c1\<lparr>w := (w c1)\<lparr>ImeState := (ImeState (w c1))\<lparr>Selection := (Selection (ImeState (w c1)))
          \<lparr>Selection_Range :=
             \<lparr>Start = caretAfter (Selection_Range (Selection (ImeState (w c)))) text,
              End = caretAfter (Selection_Range (Selection (ImeState (w c)))) text\<rparr>\<rparr>\<rparr>\<rparr>\<rparr>) = Ok (c', h)"
  using assms
  by (auto simp: EditorInsert_def SetEditorSelection_def Let_def discard_Ok collapsed
      caretAfter_def signed_min [symmetric] split: result.splits)

lemma EditorInsert_busy:
  assumes "d c \<noteq> None" "busy c"
  shows "\<exists>c1. EditorInsert env fuel t c = Ok c1
     \<and> Selection_Range (Selection (ImeState (w c1))) =
         \<lparr>Start = caretAfter (Selection_Range (Selection (ImeState (w c)))) t,
          End = caretAfter (Selection_Range (Selection (ImeState (w c)))) t\<rparr>"
  using assms
  by (simp add: EditorInsert_def SetEditorSelection_def Let_def EditorReplace_busy Event_busy
      discard_def collapsed caretAfter_def signed_min [symmetric])

lemmas rune_defs = RuneCountInString_def runeSize_def leading_def continuation_def

lemmas editor_defs = EditorInsert_def EditorReplace_def SetEditorSelection_def discard_def

lemma EditorInsert_trace:
  assumes "EditorInsert env fuel t c = Ok c'"
  shows "\<exists>xs ys zs s.
           submitted c' = submitted c @
             EditEvent (Selection_Range (Selection (ImeState (w c)))) t # xs @
             SnippetEvent s # ys @
             SelectionEvent \<lparr>Start = caretAfter (Selection_Range (Selection (ImeState (w c)))) t,
                             End = caretAfter (Selection_Range (Selection (ImeState (w c)))) t\<rparr> # zs
           \<and> (imeStable env \<longrightarrow>
                s = Snippet_Range (Snippet
                      (Replace env (Selection_Range (Selection (ImeState (w c)))) t (ImeState (w c)))))"
    and "fifo c \<Longrightarrow> \<not> busy c \<Longrightarrow> processed c' = submitted c'"
proof -
  let ?sel = "Selection_Range (Selection (ImeState (w c)))"
  let ?n = "caretAfter ?sel t"
  from assms obtain c1 h where
    r: "EditorReplace env fuel ?sel t c = Ok c1" and
    e: "Event env fuel (SelectionEvent \<lparr>Start = ?n, End = ?n\<rparr>)
       (c1\<lparr>w := (w c1)\<lparr>ImeState := (ImeState (w c1))\<lparr>Selection := (Selection (ImeState (w c1)))
          \<lparr>Selection_Range := \<lparr>Start = ?n, End = ?n\<rparr>\<rparr>\<rparr>\<rparr>\<rparr>) = Ok (c', h)"
    by (rule EditorInsert_Ok)
  from EditorReplace_trace(1)[OF r] obtain xs ys s where
    1: "submitted c1 = submitted c @ EditEvent ?sel t # xs @ SnippetEvent s # ys" and
    2: "imeStable env \<longrightarrow> s = Snippet_Range (Snippet (Replace env ?sel t (ImeState (w c))))"
    by blast
  from grows(1)[OF e] obtain zs where
    3: "submitted c' = submitted c1 @ SelectionEvent \<lparr>Start = ?n, End = ?n\<rparr> # zs"
    by auto
  from 1 3 have 4: "submitted c' = submitted c @ EditEvent ?sel t # xs @ SnippetEvent s # ys @
      SelectionEvent \<lparr>Start = ?n, End = ?n\<rparr> # zs" by simp
  show "\<exists>xs ys zs s.
           submitted c' = submitted c @ EditEvent ?sel t # xs @ SnippetEvent s # ys @
             SelectionEvent \<lparr>Start = ?n, End = ?n\<rparr> # zs
           \<and> (imeStable env \<longrightarrow> s = Snippet_Range (Snippet (Replace env ?sel t (ImeState (w c)))))"
    by (rule exI[of _ xs], rule exI[of _ ys], rule exI[of _ zs], rule exI[of _ s]) (simp add: 2 4)
  show "processed c' = submitted c'" if f: "fifo c" and nb: "\<not> busy c"
  proof -
    from EditorReplace_trace(4)[OF r f] have "fifo c1" .
    then have "fifo (c1\<lparr>w := (w c1)\<lparr>ImeState := (ImeState (w c1))\<lparr>Selection := (Selection (ImeState (w c1)))
          \<lparr>Selection_Range := \<lparr>Start = ?n, End = ?n\<rparr>\<rparr>\<rparr>\<rparr>\<rparr>)" by (simp add: fifo_def)
    from keeps_fifo(1)[OF e this] have 5: "fifo c'" .
    from EditorReplace_trace(3)[OF r] nb have "\<not> busy c1" by simp
    then have "waitEvents c' = []" using Event_top_empties[OF e] by simp
    with 5 show ?thesis by (simp add: fifo_def)
  qed
qed

lemma EditorInsert_silent:
  assumes "silentEnv env" "d c \<noteq> None" "\<not> busy c" "waitEvents c = []"
  shows "\<exists>c' s. EditorInsert env (Suc n) t c = Ok c'
     \<and> submitted c' = submitted c @
          [EditEvent (Selection_Range (Selection (ImeState (w c)))) t, SnippetEvent s,
           SelectionEvent \<lparr>Start = caretAfter (Selection_Range (Selection (ImeState (w c)))) t,
                           End = caretAfter (Selection_Range (Selection (ImeState (w c)))) t\<rparr>]
     \<and> processed c' = processed c @
          [EditEvent (Selection_Range (Selection (ImeState (w c)))) t, SnippetEvent s,
           SelectionEvent \<lparr>Start = caretAfter (Selection_Range (Selection (ImeState (w c)))) t,
                           End = caretAfter (Selection_Range (Selection (ImeState (w c)))) t\<rparr>]"
proof -
  let ?sel = "Selection_Range (Selection (ImeState (w c)))"
  let ?n = "caretAfter ?sel t"
  let ?c0 = "c\<lparr>w := (w c)\<lparr>ImeState := Replace env ?sel t (ImeState (w c))\<rparr>\<rparr>"
  from Event_silent[OF assms(1), of ?c0 n "EditEvent ?sel t"] assms(2,3,4) obtain c1 h1 where
    1: "Event env (Suc n) (EditEvent ?sel t) ?c0 = Ok (c1, h1)" "d c1 \<noteq> None" "\<not> busy c1"
       "waitEvents c1 = []" "submitted c1 = submitted c @ [EditEvent ?sel t]"
       "processed c1 = processed c @ [EditEvent ?sel t]"
    by auto
  let ?s = "Snippet_Range (Snippet (ImeState (w c1)))"
  from Event_silent[OF assms(1) 1(2,3,4), of n "SnippetEvent ?s"] 1(2,5,6) obtain c2 h2 where
    2: "Event env (Suc n) (SnippetEvent ?s) c1 = Ok (c2, h2)" "d c2 \<noteq> None" "\<not> busy c2"
       "waitEvents c2 = []" "submitted c2 = submitted c @ [EditEvent ?sel t, SnippetEvent ?s]"
       "processed c2 = processed c @ [EditEvent ?sel t, SnippetEvent ?s]"
    by auto
  let ?c2' = "c2\<lparr>w := (w c2)\<lparr>ImeState := (ImeState (w c2))\<lparr>Selection := (Selection (ImeState (w c2)))
          \<lparr>Selection_Range := \<lparr>Start = ?n, End = ?n\<rparr>\<rparr>\<rparr>\<rparr>\<rparr>"
  from Event_silent[OF assms(1), of ?c2' n "SelectionEvent \<lparr>Start = ?n, End = ?n\<rparr>"] 2(2-6)
  obtain c3 h3 where
    3: "Event env (Suc n) (SelectionEvent \<lparr>Start = ?n, End = ?n\<rparr>) ?c2' = Ok (c3, h3)"
       "submitted c3 = submitted c @ [EditEvent ?sel t, SnippetEvent ?s, SelectionEvent \<lparr>Start = ?n, End = ?n\<rparr>]"
       "processed c3 = processed c @ [EditEvent ?sel t, SnippetEvent ?s, SelectionEvent \<lparr>Start = ?n, End = ?n\<rparr>]"
    by auto
  have "EditorInsert env (Suc n) t c = Ok c3"
    using 1(1) 2(1) 3(1)
    by (simp add: EditorInsert_def EditorReplace_def SetEditorSelection_def Let_def discard_def
        collapsed caretAfter_def signed_min [symmetric])
  with 3(2,3) show ?thesis by blast
qed

text \<open>Go's count of runes, on the encoding of scalar values.\<close>

lemma size1: "c < 0x80 \<Longrightarrow> runeSize (c # bs) = 1"
  by (simp add: runeSize_def)

lemma size2:
  assumes "2 \<le> k" "k < 32" "m < 64"
  shows "runeSize ((0xC0 + k) # (0x80 + m) # bs) = 2"
  using assms by (simp add: runeSize_def leading_def Let_def)

lemma size3:
  assumes "k < 16" "m < 64" "r < 64" "k = 0 \<longrightarrow> 32 \<le> m" "k = 13 \<longrightarrow> m < 32"
  shows "runeSize ((0xE0 + k) # (0x80 + m) # (0x80 + r) # bs) = 3"
  using assms by (auto simp: runeSize_def leading_def continuation_def Let_def)

lemma size4:
  assumes "k < 5" "l < 64" "m < 64" "r < 64" "k = 0 \<longrightarrow> 16 \<le> l" "k = 4 \<longrightarrow> l < 16"
  shows "runeSize ((0xF0 + k) # (0x80 + l) # (0x80 + m) # (0x80 + r) # bs) = 4"
  using assms by (auto simp: runeSize_def leading_def continuation_def Let_def)


lemma split64:
  fixes u :: nat
  shows "u = 64 * (u div 64) + u mod 64" and "u mod 64 < 64"
  by simp_all

lemma div4096: "(u::nat) div 4096 = (u div 64) div 64"
proof -
  have "u div (64 * 64) = (u div 64) div 64" by (rule div_mult2_eq)
  then show ?thesis by simp
qed

lemma div262144: "(u::nat) div 262144 = ((u div 64) div 64) div 64"
proof -
  have "u div (4096 * 64) = (u div 4096) div 64" by (rule div_mult2_eq)
  then show ?thesis by (simp add: div4096)
qed

lemma three_bytes:
  fixes u :: nat
  assumes "0x800 \<le> u" "u < 0x10000" "u < 0xD800 \<or> 0xE000 \<le> u"
  shows "u div 4096 < 16"
    and "u div 4096 = 0 \<longrightarrow> 32 \<le> (u div 64) mod 64"
    and "u div 4096 = 13 \<longrightarrow> (u div 64) mod 64 < 32"
proof -
  define a where "a = u div 64"
  define k where "k = a div 64"
  define m where "m = a mod 64"
  have ua: "u = 64 * a + u mod 64" "u mod 64 < 64" unfolding a_def by (rule split64)+
  have ak: "a = 64 * k + m" "m < 64" unfolding k_def m_def by (rule split64)+
  have k: "u div 4096 = k" by (simp add: div4096 k_def a_def)
  from ua ak assms(2) have "k < 16" by linarith
  moreover from ua ak assms(1) have "k = 0 \<longrightarrow> 32 \<le> m" by linarith
  moreover from ua ak assms(1,2,3) have "k = 13 \<longrightarrow> m < 32" by linarith
  ultimately show "u div 4096 < 16"
    and "u div 4096 = 0 \<longrightarrow> 32 \<le> (u div 64) mod 64"
    and "u div 4096 = 13 \<longrightarrow> (u div 64) mod 64 < 32"
    unfolding k m_def a_def by simp_all
qed


lemma two_bytes:
  fixes u :: nat
  assumes "0x80 \<le> u" "u < 0x800"
  shows "2 \<le> u div 64" and "u div 64 < 32"
proof -
  define a where "a = u div 64"
  have ua: "u = 64 * a + u mod 64" "u mod 64 < 64" unfolding a_def by (rule split64)+
  from ua assms have "2 \<le> a" "a < 32" by linarith+
  then show "2 \<le> u div 64" and "u div 64 < 32" unfolding a_def by simp_all
qed

lemma four_bytes:
  fixes u :: nat
  assumes "0x10000 \<le> u" "u < 0x110000"
  shows "u div 262144 < 5"
    and "u div 262144 = 0 \<longrightarrow> 16 \<le> (u div 4096) mod 64"
    and "u div 262144 = 4 \<longrightarrow> (u div 4096) mod 64 < 16"
proof -
  define a where "a = u div 64"
  define b where "b = a div 64"
  define k where "k = b div 64"
  define l where "l = b mod 64"
  have ua: "u = 64 * a + u mod 64" "u mod 64 < 64" unfolding a_def by (rule split64)+
  have ab: "a = 64 * b + a mod 64" "a mod 64 < 64" unfolding b_def by (rule split64)+
  have bk: "b = 64 * k + l" "l < 64" unfolding k_def l_def by (rule split64)+
  have k: "u div 262144 = k" by (simp add: div262144 k_def b_def a_def)
  have b: "u div 4096 = b" by (simp add: div4096 b_def a_def)
  from ua ab bk assms(2) have "k < 5" by linarith
  moreover from ua ab bk assms(1) have "k = 0 \<longrightarrow> 16 \<le> l" by linarith
  moreover from ua ab bk assms(2) have "k = 4 \<longrightarrow> l < 16" by linarith
  ultimately show "u div 262144 < 5"
    and "u div 262144 = 0 \<longrightarrow> 16 \<le> (u div 4096) mod 64"
    and "u div 262144 = 4 \<longrightarrow> (u div 4096) mod 64 < 16"
    unfolding k b l_def by simp_all
qed

lemma count_utf8:
  assumes "scalar u"
  shows "runeCount (utf8 u @ bs) = Suc (runeCount bs)"
proof -
  consider (one) "u < 0x80" | (two) "0x80 \<le> u" "u < 0x800"
    | (three) "0x800 \<le> u" "u < 0x10000" | (four) "0x10000 \<le> u"
    by linarith
  then show ?thesis
  proof cases
    case one
    then show ?thesis by (simp add: utf8_def size1)
  next
    case two
    have m: "u mod 64 < 64" by simp
    from size2[OF two_bytes[OF two] m, of bs] two show ?thesis by (simp add: utf8_def)
  next
    case three
    from assms three have s: "u < 0xD800 \<or> 0xE000 \<le> u" by (simp add: scalar_def)
    have m: "(u div 64) mod 64 < 64" "u mod 64 < 64" by simp_all
    note t = three_bytes[OF three s]
    from size3[OF t(1) m t(2,3), of bs] three show ?thesis by (simp add: utf8_def)
  next
    case four
    from assms four have s: "u < 0x110000" by (simp add: scalar_def)
    have m: "(u div 4096) mod 64 < 64" "(u div 64) mod 64 < 64" "u mod 64 < 64" by simp_all
    note t = four_bytes[OF four s]
    from size4[OF t(1) m t(2,3), of bs] four show ?thesis by (simp add: utf8_def)
  qed
qed

lemma count_concat_utf8:
  "list_all scalar us \<Longrightarrow> runeCount (concat (map utf8 us)) = length us"
  by (induction us) (simp_all add: count_utf8)

lemma utf8_bytes:
  assumes "scalar u" "b \<in> set (utf8 u)"
  shows "b < 256"
proof -
  consider (one) "u < 0x80" | (two) "0x80 \<le> u" "u < 0x800"
    | (three) "0x800 \<le> u" "u < 0x10000" | (four) "0x10000 \<le> u"
    by linarith
  then show ?thesis
  proof cases
    case one
    with assms(2) show ?thesis by (simp add: utf8_def)
  next
    case two
    have "u mod 64 < 64" by simp
    with two_bytes[OF two] two assms(2) show ?thesis by (auto simp: utf8_def)
  next
    case three
    from assms three have s: "u < 0xD800 \<or> 0xE000 \<le> u" by (simp add: scalar_def)
    have "(u div 64) mod 64 < 64" "u mod 64 < 64" by simp_all
    with three_bytes(1)[OF three s] three assms(2) show ?thesis by (auto simp: utf8_def)
  next
    case four
    from assms four have s: "u < 0x110000" by (simp add: scalar_def)
    have "(u div 4096) mod 64 < 64" "(u div 64) mod 64 < 64" "u mod 64 < 64" by simp_all
    with four_bytes(1)[OF four s] four assms(2) show ?thesis by (auto simp: utf8_def)
  qed
qed

lemma of_char_char_of: "list_all (\<lambda>b. b < 256) bs \<Longrightarrow> map of_char (map char_of bs) = (bs :: nat list)"
  by (induction bs) simp_all

lemma RuneCount_encode:
  assumes "list_all scalar us"
  shows "RuneCountInString (encode us) = length us"
proof -
  from assms have "list_all (\<lambda>b. b < 256) (concat (map utf8 us))"
    by (auto simp: list_all_iff dest: utf8_bytes)
  then have "map of_char (encode us) = concat (map utf8 us)"
    unfolding encode_def by (rule of_char_char_of)
  with count_concat_utf8[OF assms] show ?thesis by (simp add: RuneCountInString_def)
qed

lemma char_of_eq: "of_char c = (b::nat) \<Longrightarrow> char_of b = c"
  by auto

lemma umlauts: "encode [0xE4, 0xF6, 0xFC] = [CHR 0xC3, CHR 0xA4, CHR 0xC3, CHR 0xB6, CHR 0xC3, CHR 0xBC]"
  by (simp add: encode_def utf8_def char_of_eq)

text \<open>
  Claim C3. For every text and every selection, reversed ones included, \<open>EditorInsert\<close>
  leaves the selection collapsed at the smaller of the two offsets plus the number of
  runes of the text, in Go's \<open>int\<close>. The runes are counted by \<open>RuneCountInString\<close>
  (\<open>caretAfter\<close>), and this count is the number of Unicode scalar values, not of bytes:
  on the encoding of any list of scalar values it is the length of the list, so that the
  caret is at \<open>caretAt\<close> of that length. All this holds when the call is made while a
  loop is running, where it always returns, and for every returning call with
  collaborators that do not write to the editor state themselves. A call from outside a
  loop, with a driver bound and nothing waiting, returns whenever \<open>ProcessEvent\<close> submits
  no events of its own. The three umlauts, six bytes, move the caret from \<open>(0, 0)\<close> to
  \<open>(3, 3)\<close>.
\<close>

theorem EditorInsert_selection:
  "(d c \<noteq> None \<and> busy c \<longrightarrow>
      (\<exists>c1. EditorInsert env fuel t c = Ok c1
         \<and> Selection_Range (Selection (ImeState (w c1))) =
             \<lparr>Start = caretAfter (Selection_Range (Selection (ImeState (w c)))) t,
              End = caretAfter (Selection_Range (Selection (ImeState (w c)))) t\<rparr>))
   \<and> (imeStable env \<and> EditorInsert env fuel t c = Ok c' \<longrightarrow>
        Selection_Range (Selection (ImeState (w c'))) =
          \<lparr>Start = caretAfter (Selection_Range (Selection (ImeState (w c)))) t,
           End = caretAfter (Selection_Range (Selection (ImeState (w c)))) t\<rparr>)
   \<and> (silentEnv env \<and> d c \<noteq> None \<and> \<not> busy c \<and> waitEvents c = [] \<longrightarrow>
        (\<exists>c1. EditorInsert env (Suc n) t c = Ok c1))
   \<and> (list_all scalar us \<longrightarrow> RuneCountInString (encode us) = length us)
   \<and> (list_all scalar us \<and> d c \<noteq> None \<and> busy c \<longrightarrow>
        (\<exists>c1. EditorInsert env fuel (encode us) c = Ok c1
           \<and> Selection_Range (Selection (ImeState (w c1))) =
               \<lparr>Start = caretAt (Selection_Range (Selection (ImeState (w c)))) (length us),
                End = caretAt (Selection_Range (Selection (ImeState (w c)))) (length us)\<rparr>))
   \<and> (list_all scalar us \<and> imeStable env \<and> EditorInsert env fuel (encode us) c = Ok c'' \<longrightarrow>
        Selection_Range (Selection (ImeState (w c''))) =
          \<lparr>Start = caretAt (Selection_Range (Selection (ImeState (w c)))) (length us),
           End = caretAt (Selection_Range (Selection (ImeState (w c)))) (length us)\<rparr>)"
proof -
  have returns: "\<exists>c1. EditorInsert env (Suc n) t c = Ok c1"
    if "silentEnv env \<and> d c \<noteq> None \<and> \<not> busy c \<and> waitEvents c = []"
    using EditorInsert_silent[of env c n t] that by blast
  have top: "Selection_Range (Selection (ImeState (w y))) =
          \<lparr>Start = caretAfter (Selection_Range (Selection (ImeState (w c)))) x,
           End = caretAfter (Selection_Range (Selection (ImeState (w c)))) x\<rparr>"
    if a: "imeStable env \<and> EditorInsert env fuel x c = Ok y" for x y
  proof -
    from a have "EditorInsert env fuel x c = Ok y" by simp
    then obtain c1 h where
      "Event env fuel
       (SelectionEvent \<lparr>Start = caretAfter (Selection_Range (Selection (ImeState (w c)))) x,
                        End = caretAfter (Selection_Range (Selection (ImeState (w c)))) x\<rparr>)
       (c1\<lparr>w := (w c1)\<lparr>ImeState := (ImeState (w c1))\<lparr>Selection := (Selection (ImeState (w c1)))
          \<lparr>Selection_Range :=
             \<lparr>Start = caretAfter (Selection_Range (Selection (ImeState (w c)))) x,
              End = caretAfter (Selection_Range (Selection (ImeState (w c)))) x\<rparr>\<rparr>\<rparr>\<rparr>\<rparr>) = Ok (y, h)"
      by (rule EditorInsert_Ok)
    from keeps_ime(1)[OF this] a show ?thesis by simp
  qed
  have count: "RuneCountInString (encode us) = length us" if "list_all scalar us"
    using that by (rule RuneCount_encode)
  have at: "caretAfter sel (encode us) = caretAt sel (length us)" if "list_all scalar us" for sel
    using that by (simp add: caretAfter_def caretAt_def RuneCount_encode)
  have nestedU: "\<exists>c1. EditorInsert env fuel (encode us) c = Ok c1
           \<and> Selection_Range (Selection (ImeState (w c1))) =
               \<lparr>Start = caretAt (Selection_Range (Selection (ImeState (w c)))) (length us),
                End = caretAt (Selection_Range (Selection (ImeState (w c)))) (length us)\<rparr>"
    if "list_all scalar us \<and> d c \<noteq> None \<and> busy c"
    using EditorInsert_busy[of c env fuel "encode us"] that by (simp add: at)
  have topU: "Selection_Range (Selection (ImeState (w c''))) =
          \<lparr>Start = caretAt (Selection_Range (Selection (ImeState (w c)))) (length us),
           End = caretAt (Selection_Range (Selection (ImeState (w c)))) (length us)\<rparr>"
    if "list_all scalar us \<and> imeStable env \<and> EditorInsert env fuel (encode us) c = Ok c''"
    using top[of "encode us" c''] that by (simp add: at)
  from EditorInsert_busy[of c env fuel t] top[of t c'] returns count nestedU topU
  show ?thesis by blast
qed

theorem EditorInsert_selection_witness:
  "RuneCountInString [CHR 0xC3, CHR 0xA4, CHR 0xC3, CHR 0xB6, CHR 0xC3, CHR 0xBC] = 3
   \<and> length [CHR 0xC3, CHR 0xA4, CHR 0xC3, CHR 0xB6, CHR 0xC3, CHR 0xBC] = 6
   \<and> encode [0xE4, 0xF6, 0xFC] = [CHR 0xC3, CHR 0xA4, CHR 0xC3, CHR 0xB6, CHR 0xC3, CHR 0xBC]
   \<and> (\<exists>c'. EditorInsert quiet (Suc 0) [CHR 0xC3, CHR 0xA4, CHR 0xC3, CHR 0xB6, CHR 0xC3, CHR 0xBC] fresh = Ok c'
         \<and> Selection_Range (Selection (ImeState (w c'))) = keyRange 3 3)
   \<and> (\<exists>c'. EditorInsert quiet (Suc 0) ''abc''
               (fresh\<lparr>w := freshWindow\<lparr>ImeState := (ImeState freshWindow)\<lparr>Selection := \<lparr>Selection_Range = keyRange 7 3\<rparr>\<rparr>\<rparr>\<rparr>) = Ok c'
         \<and> Selection_Range (Selection (ImeState (w c'))) = keyRange 6 6)
   \<and> (\<exists>c'. EditorInsert quiet 0 ''abc''
               (fresh\<lparr>busy := True, w := freshWindow\<lparr>ImeState := (ImeState freshWindow)\<lparr>Selection := \<lparr>Selection_Range = keyRange 3 3\<rparr>\<rparr>\<rparr>\<rparr>) = Ok c'
         \<and> Selection_Range (Selection (ImeState (w c'))) = keyRange 6 6)"
proof -
  let ?u = "[CHR 0xC3, CHR 0xA4, CHR 0xC3, CHR 0xB6, CHR 0xC3, CHR 0xBC]"
  let ?rev = "fresh\<lparr>w := freshWindow\<lparr>ImeState := (ImeState freshWindow)\<lparr>Selection := \<lparr>Selection_Range = keyRange 7 3\<rparr>\<rparr>\<rparr>\<rparr>"
  let ?bsy = "fresh\<lparr>busy := True, w := freshWindow\<lparr>ImeState := (ImeState freshWindow)\<lparr>Selection := \<lparr>Selection_Range = keyRange 3 3\<rparr>\<rparr>\<rparr>\<rparr>"
  have sc: "list_all scalar [0xE4, 0xF6, 0xFC]" by (simp add: scalar_def)
  have n: "RuneCountInString ''abc'' = 3"
    by (simp add: rune_defs)
  obtain c1 where r1: "EditorInsert quiet (Suc 0) ?u fresh = Ok c1"
    by (simp add: editor_defs ex_defs ev_defs)
  obtain c2 where r2: "EditorInsert quiet (Suc 0) ''abc'' ?rev = Ok c2"
    by (simp add: editor_defs ex_defs ev_defs)
  from EditorInsert_selection [where us = "[0xE4, 0xF6, 0xFC]"] sc umlauts
  have 0: "RuneCountInString ?u = 3" by simp
  from EditorInsert_selection [where c = fresh and env = quiet and fuel = "Suc 0"
      and us = "[0xE4, 0xF6, 0xFC]" and c'' = c1] sc umlauts r1 imeStable_quiet
  have 1: "Selection_Range (Selection (ImeState (w c1))) = keyRange 3 3"
    by (simp add: caretAt_def ex_defs)
  from EditorInsert_selection [of ?rev quiet "Suc 0" "''abc''" c2] r2 imeStable_quiet n
  have 2: "Selection_Range (Selection (ImeState (w c2))) = keyRange 6 6"
    by (simp add: caretAfter_def ex_defs)
  from EditorInsert_selection [of ?bsy quiet 0 "''abc''"] n
  have 3: "\<exists>c'. EditorInsert quiet 0 ''abc'' ?bsy = Ok c'
         \<and> Selection_Range (Selection (ImeState (w c'))) = keyRange 6 6"
    by (simp add: caretAfter_def ex_defs)
  from 0 1 2 3 r1 r2 umlauts show ?thesis by simp
qed

text \<open>
  Claim C4. \<open>EditorReplace r t\<close> emits \<open>EditEvent r t\<close> and then a \<open>SnippetEvent\<close>
  with the snippet range as it is after the edit: appended to the queue in this order when
  a loop is running, and in this order among the submitted events of every returning call
  (events that \<open>ProcessEvent\<close> submits itself may come in between). \<open>EditorInsert t\<close>
  emits the \<open>EditEvent\<close> for the selection, the \<open>SnippetEvent\<close> and then the
  \<open>SelectionEvent\<close> of the collapsed selection, which is also the final selection; from
  outside a loop they have all been handed to \<open>ProcessEvent\<close> in this order, and
  when \<open>ProcessEvent\<close> submits nothing itself the call returns and these three are
  exactly the events submitted and processed. For
  \<open>''hi''\<close> on the selection \<open>(0, 0)\<close> these are \<open>EditEvent (0, 0) ''hi''\<close>, the
  \<open>SnippetEvent\<close> and \<open>SelectionEvent (2, 2)\<close>.
\<close>

theorem EditorReplace_emits_in_order:
  "(d c \<noteq> None \<and> busy c \<longrightarrow>
      EditorReplace env fuel r t c =
        Ok (c\<lparr>w := (w c)\<lparr>ImeState := Replace env r t (ImeState (w c))\<rparr>,
              waitEvents := waitEvents c @
                [EditEvent r t, SnippetEvent (Snippet_Range (Snippet (Replace env r t (ImeState (w c)))))],
              submitted := submitted c @
                [EditEvent r t, SnippetEvent (Snippet_Range (Snippet (Replace env r t (ImeState (w c)))))]\<rparr>))
   \<and> (EditorReplace env fuel r t c = Ok c' \<longrightarrow>
        (\<exists>xs ys s. submitted c' = submitted c @ EditEvent r t # xs @ SnippetEvent s # ys
           \<and> (imeStable env \<longrightarrow> s = Snippet_Range (Snippet (Replace env r t (ImeState (w c)))))))
   \<and> (EditorInsert env fuel t c = Ok c'' \<longrightarrow>
        (\<exists>xs ys zs s.
           submitted c'' = submitted c @
             EditEvent (Selection_Range (Selection (ImeState (w c)))) t # xs @
             SnippetEvent s # ys @
             SelectionEvent \<lparr>Start = caretAfter (Selection_Range (Selection (ImeState (w c)))) t,
                             End = caretAfter (Selection_Range (Selection (ImeState (w c)))) t\<rparr> # zs
           \<and> (imeStable env \<longrightarrow>
                s = Snippet_Range (Snippet
                      (Replace env (Selection_Range (Selection (ImeState (w c)))) t (ImeState (w c))))))
        \<and> (submitted c = processed c @ waitEvents c \<and> \<not> busy c \<longrightarrow> processed c'' = submitted c'')
        \<and> (imeStable env \<longrightarrow>
             Selection_Range (Selection (ImeState (w c''))) =
               \<lparr>Start = caretAfter (Selection_Range (Selection (ImeState (w c)))) t,
                End = caretAfter (Selection_Range (Selection (ImeState (w c)))) t\<rparr>))
   \<and> (silentEnv env \<and> d c \<noteq> None \<and> \<not> busy c \<and> waitEvents c = [] \<longrightarrow>
        (\<exists>c1 s. EditorInsert env (Suc n) t c = Ok c1
           \<and> submitted c1 = submitted c @
                [EditEvent (Selection_Range (Selection (ImeState (w c)))) t, SnippetEvent s,
                 SelectionEvent \<lparr>Start = caretAfter (Selection_Range (Selection (ImeState (w c)))) t,
                                 End = caretAfter (Selection_Range (Selection (ImeState (w c)))) t\<rparr>]
           \<and> processed c1 = processed c @
                [EditEvent (Selection_Range (Selection (ImeState (w c)))) t, SnippetEvent s,
                 SelectionEvent \<lparr>Start = caretAfter (Selection_Range (Selection (ImeState (w c)))) t,
                                 End = caretAfter (Selection_Range (Selection (ImeState (w c)))) t\<rparr>]))"
proof -
  have exact: "\<exists>c1 s. EditorInsert env (Suc n) t c = Ok c1
           \<and> submitted c1 = submitted c @
                [EditEvent (Selection_Range (Selection (ImeState (w c)))) t, SnippetEvent s,
                 SelectionEvent \<lparr>Start = caretAfter (Selection_Range (Selection (ImeState (w c)))) t,
                                 End = caretAfter (Selection_Range (Selection (ImeState (w c)))) t\<rparr>]
           \<and> processed c1 = processed c @
                [EditEvent (Selection_Range (Selection (ImeState (w c)))) t, SnippetEvent s,
                 SelectionEvent \<lparr>Start = caretAfter (Selection_Range (Selection (ImeState (w c)))) t,
                                 End = caretAfter (Selection_Range (Selection (ImeState (w c)))) t\<rparr>]"
    if "silentEnv env \<and> d c \<noteq> None \<and> \<not> busy c \<and> waitEvents c = []"
    using EditorInsert_silent[of env c n t] that by blast
  have nested: "EditorReplace env fuel r t c =
        Ok (c\<lparr>w := (w c)\<lparr>ImeState := Replace env r t (ImeState (w c))\<rparr>,
              waitEvents := waitEvents c @
                [EditEvent r t, SnippetEvent (Snippet_Range (Snippet (Replace env r t (ImeState (w c)))))],
              submitted := submitted c @
                [EditEvent r t, SnippetEvent (Snippet_Range (Snippet (Replace env r t (ImeState (w c)))))]\<rparr>)"
    if "d c \<noteq> None \<and> busy c"
    using that by (simp add: EditorReplace_busy)
  have sel: "Selection_Range (Selection (ImeState (w c''))) =
               \<lparr>Start = caretAfter (Selection_Range (Selection (ImeState (w c)))) t,
                End = caretAfter (Selection_Range (Selection (ImeState (w c)))) t\<rparr>"
    if "EditorInsert env fuel t c = Ok c''" "imeStable env"
  proof -
    from that(1) obtain c1 h where
      "Event env fuel
       (SelectionEvent \<lparr>Start = caretAfter (Selection_Range (Selection (ImeState (w c)))) t,
                        End = caretAfter (Selection_Range (Selection (ImeState (w c)))) t\<rparr>)
       (c1\<lparr>w := (w c1)\<lparr>ImeState := (ImeState (w c1))\<lparr>Selection := (Selection (ImeState (w c1)))
          \<lparr>Selection_Range :=
             \<lparr>Start = caretAfter (Selection_Range (Selection (ImeState (w c)))) t,
              End = caretAfter (Selection_Range (Selection (ImeState (w c)))) t\<rparr>\<rparr>\<rparr>\<rparr>\<rparr>) = Ok (c'', h)"
      by (rule EditorInsert_Ok)
    from keeps_ime(1)[OF this that(2)] show ?thesis by simp
  qed
  from nested EditorReplace_trace(1)[of env fuel r t c c']
    EditorInsert_trace[of env fuel t c c''] sel
  have "(d c \<noteq> None \<and> busy c \<longrightarrow>
      EditorReplace env fuel r t c =
        Ok (c\<lparr>w := (w c)\<lparr>ImeState := Replace env r t (ImeState (w c))\<rparr>,
              waitEvents := waitEvents c @
                [EditEvent r t, SnippetEvent (Snippet_Range (Snippet (Replace env r t (ImeState (w c)))))],
              submitted := submitted c @
                [EditEvent r t, SnippetEvent (Snippet_Range (Snippet (Replace env r t (ImeState (w c)))))]\<rparr>))
   \<and> (EditorReplace env fuel r t c = Ok c' \<longrightarrow>
        (\<exists>xs ys s. submitted c' = submitted c @ EditEvent r t # xs @ SnippetEvent s # ys
           \<and> (imeStable env \<longrightarrow> s = Snippet_Range (Snippet (Replace env r t (ImeState (w c)))))))
   \<and> (EditorInsert env fuel t c = Ok c'' \<longrightarrow>
        (\<exists>xs ys zs s.
           submitted c'' = submitted c @
             EditEvent (Selection_Range (Selection (ImeState (w c)))) t # xs @
             SnippetEvent s # ys @
             SelectionEvent \<lparr>Start = caretAfter (Selection_Range (Selection (ImeState (w c)))) t,
                             End = caretAfter (Selection_Range (Selection (ImeState (w c)))) t\<rparr> # zs
           \<and> (imeStable env \<longrightarrow>
                s = Snippet_Range (Snippet
                      (Replace env (Selection_Range (Selection (ImeState (w c)))) t (ImeState (w c))))))
        \<and> (submitted c = processed c @ waitEvents c \<and> \<not> busy c \<longrightarrow> processed c'' = submitted c'')
        \<and> (imeStable env \<longrightarrow>
             Selection_Range (Selection (ImeState (w c''))) =
               \<lparr>Start = caretAfter (Selection_Range (Selection (ImeState (w c)))) t,
                End = caretAfter (Selection_Range (Selection (ImeState (w c)))) t\<rparr>))"
    unfolding fifo_def by blast
  with exact show ?thesis by blast
qed

theorem EditorReplace_emits_in_order_witness:
  "EditorInsert quiet (Suc 0) ''hi'' fresh =
     Ok (fresh\<lparr>w := freshWindow\<lparr>ImeState := (ImeState freshWindow)\<lparr>Selection := \<lparr>Selection_Range = keyRange 2 2\<rparr>\<rparr>\<rparr>,
        submitted := [EditEvent (keyRange 0 0) ''hi'', SnippetEvent (keyRange 0 0), SelectionEvent (keyRange 2 2)],
        processed := [EditEvent (keyRange 0 0) ''hi'', SnippetEvent (keyRange 0 0), SelectionEvent (keyRange 2 2)]\<rparr>)
   \<and> EditorReplace quiet 0 (keyRange 1 4) ''hi'' (fresh\<lparr>busy := True\<rparr>) =
       Ok (fresh\<lparr>busy := True,
             waitEvents := [EditEvent (keyRange 1 4) ''hi'', SnippetEvent (keyRange 0 0)],
             submitted := [EditEvent (keyRange 1 4) ''hi'', SnippetEvent (keyRange 0 0)]\<rparr>)
   \<and> (\<exists>xs ys zs s.
         [EditEvent (keyRange 0 0) ''hi'', SnippetEvent (keyRange 0 0), SelectionEvent (keyRange 2 2)] =
           EditEvent (keyRange 0 0) ''hi'' # xs @ SnippetEvent s # ys @ SelectionEvent (keyRange 2 2) # zs
         \<and> s = keyRange 0 0)"
proof -
  let ?c = "fresh\<lparr>w := freshWindow\<lparr>ImeState := (ImeState freshWindow)\<lparr>Selection := \<lparr>Selection_Range = keyRange 2 2\<rparr>\<rparr>\<rparr>,
        submitted := [EditEvent (keyRange 0 0) ''hi'', SnippetEvent (keyRange 0 0), SelectionEvent (keyRange 2 2)],
        processed := [EditEvent (keyRange 0 0) ''hi'', SnippetEvent (keyRange 0 0), SelectionEvent (keyRange 2 2)]\<rparr>"
  have n: "RuneCountInString ''hi'' = 2" by (simp add: rune_defs)
  have run: "EditorInsert quiet (Suc 0) ''hi'' fresh = Ok ?c"
    by (simp add: editor_defs ex_defs ev_defs rune_defs)
  from EditorReplace_emits_in_order [of "fresh\<lparr>busy := True\<rparr>" quiet 0 "keyRange 1 4" "''hi''"]
  have 1: "EditorReplace quiet 0 (keyRange 1 4) ''hi'' (fresh\<lparr>busy := True\<rparr>) =
       Ok (fresh\<lparr>busy := True,
             waitEvents := [EditEvent (keyRange 1 4) ''hi'', SnippetEvent (keyRange 0 0)],
             submitted := [EditEvent (keyRange 1 4) ''hi'', SnippetEvent (keyRange 0 0)]\<rparr>)"
    by (simp add: ex_defs)
  from EditorReplace_emits_in_order [of fresh quiet "Suc 0" "keyRange 0 0" "''hi''" _ ?c] run
    imeStable_quiet n
  have 2: "\<exists>xs ys zs s.
         [EditEvent (keyRange 0 0) ''hi'', SnippetEvent (keyRange 0 0), SelectionEvent (keyRange 2 2)] =
           EditEvent (keyRange 0 0) ''hi'' # xs @ SnippetEvent s # ys @ SelectionEvent (keyRange 2 2) # zs
         \<and> s = keyRange 0 0"
    by (simp add: ex_defs caretAfter_def)
  from run 1 2 show ?thesis by simp
qed

subsection \<open>Configuration on wake-up\<close>

lemma configurePending_some:
  assumes "buf (Options (w c)) = opts # rest" "d c \<noteq> None"
  shows "configurePending env c =
    Ok (c\<lparr>w := (w c)\<lparr>Options := (Options (w c))\<lparr>buf := rest\<rparr>,
                      Decorations := (Decorations (w c))\<lparr>Enabled :=
                        Decorated (fold (\<lambda>opt cnf. opt (Metric (w c)) cnf) opts
                          \<lparr>Title = [], Decorated = Enabled (Decorations (w c))\<rparr>)\<rparr>\<rparr>,
          driverCalls := driverCalls c @
            [Configure (opts @ [DecoHeightOpt env
               (if Decorated (fold (\<lambda>opt cnf. opt (Metric (w c)) cnf) opts
                          \<lparr>Title = [], Decorated = Enabled (Decorations (w c))\<rparr>)
                then Height (Decorations (w c)) else 0)])]\<rparr>)"
  using assms by (auto simp: configurePending_def tryrecv_def Let_def)

lemma performPending_grows:
  assumes "d c \<noteq> None"
  shows "\<exists>c' more. performPending c = Ok c' \<and> driverCalls c' = driverCalls c @ more
     \<and> Decorations (w c') = Decorations (w c)"
  using assms by (auto simp: performPending_def tryrecv_def split: list.splits)

text \<open>
  Claim C6. Take a \<open>WakeupEvent\<close> delivered from outside a loop, with a driver bound,
  whose loop returns, on a window that is not being destroyed and on which, after
  \<open>UpdateState\<close>, a list of options waits. Then \<open>Event\<close> returns; the options have
  been applied from left to right to a \<open>Config\<close> that starts from the window's
  \<open>Decorations.Enabled\<close> (for \<open>[A, B]\<close> the result is \<open>B\<close> applied to \<open>A\<close> applied to
  the start); \<open>Decorations.Enabled\<close> is the \<open>Decorated\<close> of the result; and the driver
  is configured with the options followed by \<open>DecoHeightOpt\<close> of the decoration height,
  which is 0 whenever that flag is false.
\<close>

theorem Event_wakeup_configures:
  assumes "d c \<noteq> None" and "\<not> busy c"
    and "drain env fuel (c\<lparr>waitEvents := waitEvents c @ [WakeupEvent],
                            submitted := submitted c @ [WakeupEvent], busy := True\<rparr>) False = Ok (c2, h)"
    and "buf (Destroy (w c2)) = []" and "\<not> closed (Destroy (w c2))"
    and "w3 = UpdateState env (d c2) (w c2)"
    and "buf (Options w3) = opts # rest"
    and "seed = \<lparr>Title = [], Decorated = Enabled (Decorations w3)\<rparr>"
    and "cnf = fold (\<lambda>opt cnf. opt (Metric w3) cnf) opts seed"
  shows "\<exists>c' more. Event env fuel WakeupEvent c = Ok (c', h)
     \<and> Enabled (Decorations (w c')) = Decorated cnf
     \<and> driverCalls c' = driverCalls c2 @
          Configure (opts @ [DecoHeightOpt env (if Decorated cnf then Height (Decorations w3) else 0)])
            # more
     \<and> (\<forall>A B. opts = [A, B] \<longrightarrow> cnf = B (Metric w3) (A (Metric w3) seed))"
proof -
  let ?c3 = "c2\<lparr>busy := False, w := w3\<rparr>"
  let ?h = "if Decorated cnf then Height (Decorations w3) else 0"
  let ?c4 = "?c3\<lparr>w := w3\<lparr>Options := (Options w3)\<lparr>buf := rest\<rparr>,
                      Decorations := (Decorations w3)\<lparr>Enabled := Decorated cnf\<rparr>\<rparr>,
          driverCalls := driverCalls c2 @ [Configure (opts @ [DecoHeightOpt env ?h])]\<rparr>"
  from pres(2)[OF assms(3)] assms(1) have dd: "d c2 \<noteq> None" by simp
  have cfg: "configurePending env ?c3 = Ok ?c4"
    using configurePending_some[of ?c3 opts rest env] assms(7,8,9) dd by simp
  from performPending_grows[of ?c4] dd obtain c' more where
    pf: "performPending ?c4 = Ok c'" "driverCalls c' = driverCalls ?c4 @ more"
      "Decorations (w c') = Decorations (w ?c4)"
    by auto
  have ad: "afterDrain env WakeupEvent (c2\<lparr>busy := False\<rparr>) = Ok c'"
    using assms(4,5,6) cfg pf(1) by (simp add: afterDrain_def tryrecv_def Let_def)
  have ev: "Event env fuel WakeupEvent c = Ok (c', h)"
    using assms(1,2,3) ad by (simp add: Event.simps Let_def)
  have fold2: "\<forall>A B. opts = [A, B] \<longrightarrow> cnf = B (Metric w3) (A (Metric w3) seed)"
    using assms(9) by simp
  from ev pf(2,3) fold2 show ?thesis by simp
qed
theorem Event_wakeup_configures_witness:
  "\<exists>c' more. Event quiet (Suc 0) WakeupEvent pendingOptions = Ok (c', True)
     \<and> Enabled (Decorations (w c')) = False
     \<and> driverCalls c' = [] @ Configure ([undecorate, retitle] @ [DecoHeightOpt quiet 0]) # more"
proof -
  let ?c2 = "pendingOptions\<lparr>waitEvents := [], submitted := [WakeupEvent], busy := True,
               processed := [WakeupEvent]\<rparr>"
  let ?seed = "\<lparr>Title = [], Decorated = Enabled (Decorations (w pendingOptions))\<rparr>"
  let ?cnf = "\<lparr>Title = ''mado'', Decorated = False\<rparr>"
  have 1: "d pendingOptions \<noteq> None" and 2: "\<not> busy pendingOptions"
    by (simp_all add: pendingOptions_def fresh_def)
  have 3: "drain quiet (Suc 0) (pendingOptions\<lparr>waitEvents := waitEvents pendingOptions @ [WakeupEvent],
                            submitted := submitted pendingOptions @ [WakeupEvent], busy := True\<rparr>) False = Ok (?c2, True)"
    by (simp add: drain.simps turns.simps enterLoop_def leaveLoop_def pendingOptions_def
        fresh_def quiet_def)
  have 4: "buf (Destroy (w ?c2)) = []" and 5: "\<not> closed (Destroy (w ?c2))"
    by (simp_all add: pendingOptions_def freshWindow_def emptyChan_def)
  have 6: "w pendingOptions = UpdateState quiet (d ?c2) (w ?c2)"
    by (simp add: quiet_def)
  have 7: "buf (Options (w pendingOptions)) = [undecorate, retitle] # []"
    by (simp add: pendingOptions_def)
  have 9: "?cnf = fold (\<lambda>opt cnf. opt (Metric (w pendingOptions)) cnf) [undecorate, retitle] ?seed"
    by (simp add: undecorate_def retitle_def)
  from Event_wakeup_configures [OF 1 2 3 4 5 6 7 refl 9]
  have "\<exists>c' more. Event quiet (Suc 0) WakeupEvent pendingOptions = Ok (c', True)
     \<and> Enabled (Decorations (w c')) = Decorated ?cnf
     \<and> driverCalls c' = driverCalls ?c2 @
          Configure ([undecorate, retitle] @
            [DecoHeightOpt quiet (if Decorated ?cnf then Height (Decorations (w pendingOptions)) else 0)])
            # more"
    by blast
  moreover have "driverCalls ?c2 = []" by (simp add: pendingOptions_def fresh_def)
  ultimately show ?thesis by simp
qed

subsection \<open>Binding the driver\<close>

text \<open>
  What \<open>SetDriver\<close> does in the goroutine that calls it. In each of its outcomes the
  driver handle has been replaced; the value it sends is the driver's \<open>Wakeup\<close> method,
  or the nil function for a nil driver; and a send that is done has taken nothing out of
  the channel: the value was handed to a waiting receiver or put behind the values that
  wait, the rest of the state being as it was.
\<close>

lemma SetDriver_outcomes:
  "(\<exists>ch. send (map_option Wakeup drv) (WakeupFuncs (w c)) = Sent ch
        \<and> SetDriver drv c = Bound (c\<lparr>d := drv, w := (w c)\<lparr>WakeupFuncs := ch\<rparr>\<rparr>))
   \<or> (send (map_option Wakeup drv) (WakeupFuncs (w c)) = Parked
        \<and> SetDriver drv c = InSend (c\<lparr>d := drv\<rparr>) (map_option Wakeup drv))
   \<or> (send (map_option Wakeup drv) (WakeupFuncs (w c)) = SendOnClosed
        \<and> SetDriver drv c = SendPanic ''send on closed channel'' (c\<lparr>d := drv\<rparr>))"
proof -
  have wk: "(case drv of None \<Rightarrow> None | Some y \<Rightarrow> Some (Wakeup y)) = map_option Wakeup drv"
    by (cases drv) simp_all
  show ?thesis
    by (cases "send (map_option Wakeup drv) (WakeupFuncs (w c))")
      (simp_all add: SetDriver_def Let_def wk)
qed

lemma send_keeps:
  "send v ch = Sent ch' \<Longrightarrow>
     (buf ch' = buf ch \<and> handed ch' = handed ch @ [v] \<and> 0 < receivers ch)
     \<or> (buf ch' = buf ch @ [v] \<and> handed ch' = handed ch \<and> receivers ch = 0)"
  by (auto simp: send_def split: if_splits)

end
